theory Spec2Isabelle
  imports Main "HOL-Library.Word"
begin

unbundle bit_operations_syntax

section \<open>The cache core of otter (internal/core/cache.go)\<close>

text \<open>
  The file embeds the coordination engine of the cache: the facade operations
  (Get, Has, the four Set variants, Delete, Clear, Close), the maintenance loop
  (\<open>process\<close>) and the expiration sweeper (\<open>cleanup\<close>).

  The Go program is concurrent. The embedding is sequential: a facade call, one iteration
  of the maintenance loop and one iteration of the sweeper are each one step on the
  cache state. The state holds the hash table, the liveness flags of the nodes, the write
  queue, the read buffers, the statistics, the policy mutex, the local variables of the
  maintenance loop, and a trace of the calls made on the eviction policy, the expiration
  policy, the policy mutex, the done channel and the clock, in the order they are made.
  Every step releases the mutex it locks, with one exception (the sweeper that finds the
  cache closed), so between two steps the mutex is held only by a worker that has
  returned; a step that locks it then waits forever.
\<close>

subsection \<open>Machine integers\<close>

type_synonym uint32 = "32 word"
type_synonym int64 = "64 word"

text \<open>Go's \<open>/\<close> on signed integers truncates towards zero.\<close>

definition go_div :: "int \<Rightarrow> int \<Rightarrow> int" where
  "go_div a b = (if (a < 0) = (b < 0) then \<bar>a\<bar> div \<bar>b\<bar> else - (\<bar>a\<bar> div \<bar>b\<bar>))"

subsection \<open>Nodes and the node manager\<close>

text \<open>
  Modelled from the spec: the package \<open>node\<close> (the entry record and its manager) lies
  outside internal/core/cache.go. A node has a key, a value, an expiration (0: never
  expires), a cost and a liveness flag that \<open>Die\<close> turns off. In Go a node is a heap
  object handled by reference and compared by identity. Key, value, expiration and cost
  are written once, when the node is created, so the reference carries them together
  with the identity \<open>nid\<close>; the liveness flag, the one mutable field, lives in the
  cache state (\<open>alive\<close>), indexed by the identity.
\<close>

record ('k, 'v) node =
  nid :: nat
  key :: 'k
  val :: 'v
  expiration :: uint32
  cost :: uint32

subsection \<open>Write tasks\<close>

text \<open>
  Modelled from the spec: the package \<open>task\<close> lies outside internal/core/cache.go.
  A write task is a tagged union of Add, Update (new node, old node), Delete, Clear and
  Close.
\<close>

datatype ('k, 'v) task =
    AddTask "('k, 'v) node"
  | UpdateTask "('k, 'v) node" "('k, 'v) node"
  | DeleteTask "('k, 'v) node"
  | ClearTask
  | CloseTask

fun IsClear :: "('k, 'v) task \<Rightarrow> bool" where
  "IsClear ClearTask = True"
| "IsClear _ = False"

fun IsClose :: "('k, 'v) task \<Rightarrow> bool" where
  "IsClose CloseTask = True"
| "IsClose _ = False"

subsection \<open>Statistics\<close>

text \<open>
  Modelled from the spec: the package \<open>stats\<close> lies outside internal/core/cache.go.
  The collector counts hits and misses. \<open>NewCache\<close> creates it only when
  \<open>StatsEnabled\<close> is set; otherwise the field \<open>stats\<close> of the cache is nil, the
  facade still calls its methods, and they do nothing.
\<close>

record stats =
  hits :: nat
  misses :: nat

definition IncHits :: "stats option \<Rightarrow> stats option" where
  "IncHits s = map_option (\<lambda>st. st\<lparr>hits := hits st + 1\<rparr>) s"

definition IncMisses :: "stats option \<Rightarrow> stats option" where
  "IncMisses s = map_option (\<lambda>st. st\<lparr>misses := misses st + 1\<rparr>) s"

definition stats_Clear :: "stats option \<Rightarrow> stats option" where
  "stats_Clear s = map_option (\<lambda>st. st\<lparr>hits := 0, misses := 0\<rparr>) s"

subsection \<open>Lossy read buffer\<close>

text \<open>
  Modelled from the spec: the package \<open>lossy\<close> lies outside internal/core/cache.go.
  A buffer has a fixed capacity. \<open>Add\<close> returns a drained batch exactly when the buffer
  goes from capacity - 1 to capacity entries; after that it drops every \<open>Add\<close> until
  \<open>Free\<close> is called. \<open>Clear\<close> empties the buffer and unlocks it.
\<close>

record ('k, 'v) lossy_buffer =
  capacity :: nat
  items :: "('k, 'v) node list"
  handed_out :: bool

definition buffer_Add ::
  "('k, 'v) lossy_buffer \<Rightarrow> ('k, 'v) node \<Rightarrow> ('k, 'v) node list option \<times> ('k, 'v) lossy_buffer"
where
  "buffer_Add b n =
     (if handed_out b \<or> capacity b \<le> length (items b) then (None, b)
      else if length (items b) + 1 = capacity b
        then (Some (items b @ [n]), b\<lparr>items := items b @ [n], handed_out := True\<rparr>)
      else (None, b\<lparr>items := items b @ [n]\<rparr>))"

definition buffer_Free :: "('k, 'v) lossy_buffer \<Rightarrow> ('k, 'v) lossy_buffer" where
  "buffer_Free b = b\<lparr>items := [], handed_out := False\<rparr>"

definition buffer_Clear :: "('k, 'v) lossy_buffer \<Rightarrow> ('k, 'v) lossy_buffer" where
  "buffer_Clear b = b\<lparr>items := [], handed_out := False\<rparr>"

subsection \<open>The trace of calls on the collaborators\<close>

datatype ('k, 'v) event =
    MutexLock
  | MutexUnlock
  | PolicyRead "('k, 'v) node list"
  | PolicyWrite "('k, 'v) task list"
  | PolicyDelete "('k, 'v) node list"
  | PolicyClear
  | ExpireAdd "('k, 'v) node"
  | ExpireDelete "('k, 'v) node"
  | ExpireRemoveExpired
  | ExpireClear
  | SetIsClosed
  | DoneClearSend
  | DoneClearRecv
  | UnixtimeStop

text \<open>
  The eviction policy (package \<open>s3fifo\<close>) and the expiration policy (package
  \<open>expire\<close>) lie outside internal/core/cache.go as well, and the spec leaves their
  internals open. They are deterministic objects private to the cache, so what one of
  their methods returns is a function of the calls made on them so far: the embedding
  takes these three functions of the trace as a parameter.
\<close>

record ('k, 'v) policies =
  MaxAvailableCost :: "('k, 'v) event list \<Rightarrow> uint32"
  Write :: "('k, 'v) event list \<Rightarrow> ('k, 'v) task list \<Rightarrow> ('k, 'v) node list"
  RemoveExpired :: "('k, 'v) event list \<Rightarrow> uint32 \<Rightarrow> ('k, 'v) node list"

subsection \<open>The cache\<close>

text \<open>
  The fields of the Go struct \<open>Cache\<close>, with
  \<^item> \<open>alive\<close> and \<open>next_nid\<close> for the node manager (liveness flag per node identity,
    next fresh identity);
  \<^item> \<open>hashmap\<close>: modelled from the spec (package \<open>hashtable\<close> lies outside
    internal/core/cache.go): a map from keys to nodes with atomic Get, Set, SetIfAbsent,
    Delete, DeleteNode and Clear;
  \<^item> \<open>writeBuffer\<close>: modelled from the spec (package \<open>queue\<close> lies outside
    internal/core/cache.go): a FIFO of write tasks, logically unbounded;
  \<^item> \<open>evictionMutex\<close>: True while the policy mutex is held;
  \<^item> \<open>closeOnce\<close>: True once the \<open>sync.Once\<close> has run;
  \<^item> \<open>doneClear\<close>: True while the maintenance loop has sent on the done channel and
    the value has not been received;
  \<^item> \<open>now\<close>: modelled from the spec (package \<open>unixtime\<close> lies outside
    internal/core/cache.go): the seconds clock;
  \<^item> \<open>buffer\<close>, \<open>i_var\<close>, \<open>process_exited\<close>: the local variables \<open>buffer\<close> and
    \<open>i\<close> of \<open>process\<close> and whether the loop has left through \<open>break\<close>;
  \<^item> \<open>cleanup_exited\<close>: whether \<open>cleanup\<close> has returned;
  \<^item> \<open>trace\<close>: the calls on the collaborators so far.
\<close>

record ('k, 'v) cache =
  hashmap :: "'k \<rightharpoonup> ('k, 'v) node"
  alive :: "nat \<Rightarrow> bool"
  next_nid :: nat
  stats :: "stats option"
  readBuffers :: "('k, 'v) lossy_buffer list"
  writeBuffer :: "('k, 'v) task list"
  evictionMutex :: bool
  closeOnce :: bool
  doneClear :: bool
  costFunc :: "'k \<Rightarrow> 'v \<Rightarrow> uint32"
  mask :: uint32
  ttl :: uint32
  withExpiration :: bool
  isClosed :: bool
  now :: uint32
  buffer :: "('k, 'v) task list"
  i_var :: int
  process_exited :: bool
  cleanup_exited :: bool
  trace :: "('k, 'v) event list"

text \<open>
  A call either returns, or panics on an index out of range, or never returns because
  it waits for a mutex or a channel that nobody will serve.
\<close>

datatype fault = IndexOutOfRange | BlockedForever

definition log_event :: "('k, 'v) event \<Rightarrow> ('k, 'v) cache \<Rightarrow> ('k, 'v) cache" where
  "log_event e c = c\<lparr>trace := trace c @ [e]\<rparr>"

definition Lock :: "('k, 'v) cache \<Rightarrow> fault + ('k, 'v) cache" where
  "Lock c =
     (if evictionMutex c then Inl BlockedForever
      else Inr (log_event MutexLock (c\<lparr>evictionMutex := True\<rparr>)))"

definition Unlock :: "('k, 'v) cache \<Rightarrow> ('k, 'v) cache" where
  "Unlock c = log_event MutexUnlock (c\<lparr>evictionMutex := False\<rparr>)"

subsubsection \<open>Node methods\<close>

text \<open>
  Modelled from the spec: \<open>Create\<close> makes a live node with a fresh identity;
  \<open>IsAlive\<close> reads the liveness flag and \<open>Die\<close> turns it off; a node is expired
  when its expiration is not 0 and the clock has reached it.
\<close>

definition Create ::
  "('k, 'v) cache \<Rightarrow> 'k \<Rightarrow> 'v \<Rightarrow> uint32 \<Rightarrow> uint32 \<Rightarrow> ('k, 'v) node \<times> ('k, 'v) cache"
where
  "Create c k v e cst =
     (\<lparr>nid = next_nid c, key = k, val = v, expiration = e, cost = cst\<rparr>,
      c\<lparr>alive := (alive c)(next_nid c := True), next_nid := next_nid c + 1\<rparr>)"

definition IsAlive :: "('k, 'v) cache \<Rightarrow> ('k, 'v) node \<Rightarrow> bool" where
  "IsAlive c n = alive c (nid n)"

definition IsExpired :: "('k, 'v) cache \<Rightarrow> ('k, 'v) node \<Rightarrow> bool" where
  "IsExpired c n = (expiration n \<noteq> 0 \<and> expiration n \<le> now c)"

definition Die :: "('k, 'v) node \<Rightarrow> ('k, 'v) cache \<Rightarrow> ('k, 'v) cache" where
  "Die n c = c\<lparr>alive := (alive c)(nid n := False)\<rparr>"

subsubsection \<open>Hash table methods\<close>

text \<open>
  Modelled from the spec: the hash table provides atomic Get, Set, SetIfAbsent, Delete,
  DeleteNode and Clear. \<open>Set\<close> returns the displaced node, if any; \<open>SetIfAbsent\<close>
  inserts only when the key has no node and returns the node that was in the way
  otherwise; \<open>Delete\<close> returns the removed node, if any; \<open>DeleteNode\<close> removes the
  entry of the node's key only when it holds this very node (identity-based).
\<close>

definition hashmap_Set ::
  "('k, 'v) node \<Rightarrow> ('k, 'v) cache \<Rightarrow> ('k, 'v) node option \<times> ('k, 'v) cache"
where
  "hashmap_Set n c = (hashmap c (key n), c\<lparr>hashmap := (hashmap c)(key n \<mapsto> n)\<rparr>)"

definition hashmap_SetIfAbsent ::
  "('k, 'v) node \<Rightarrow> ('k, 'v) cache \<Rightarrow> ('k, 'v) node option \<times> ('k, 'v) cache"
where
  "hashmap_SetIfAbsent n c =
     (case hashmap c (key n) of
        None \<Rightarrow> (None, c\<lparr>hashmap := (hashmap c)(key n \<mapsto> n)\<rparr>)
      | Some old \<Rightarrow> (Some old, c))"

definition hashmap_Delete ::
  "'k \<Rightarrow> ('k, 'v) cache \<Rightarrow> ('k, 'v) node option \<times> ('k, 'v) cache"
where
  "hashmap_Delete k c = (hashmap c k, c\<lparr>hashmap := (hashmap c)(k := None)\<rparr>)"

definition hashmap_DeleteNode ::
  "('k, 'v) node \<Rightarrow> ('k, 'v) cache \<Rightarrow> ('k, 'v) node option \<times> ('k, 'v) cache"
where
  "hashmap_DeleteNode n c =
     (case hashmap c (key n) of
        None \<Rightarrow> (None, c)
      | Some m \<Rightarrow>
          if nid m = nid n then (Some m, c\<lparr>hashmap := (hashmap c)(key n := None)\<rparr>)
          else (None, c))"

definition hashmap_Clear :: "('k, 'v) cache \<Rightarrow> ('k, 'v) cache" where
  "hashmap_Clear c = c\<lparr>hashmap := Map.empty\<rparr>"

subsubsection \<open>Write queue methods\<close>

text \<open>
  Modelled from the spec: \<open>Insert\<close> appends to the FIFO; \<open>Remove\<close> takes its head
  and waits while it is empty; \<open>Clear\<close> drains it.
\<close>

definition Insert :: "('k, 'v) task \<Rightarrow> ('k, 'v) cache \<Rightarrow> ('k, 'v) cache" where
  "Insert t c = c\<lparr>writeBuffer := writeBuffer c @ [t]\<rparr>"

subsection \<open>Expirations\<close>

definition getExpiration :: "uint32 \<Rightarrow> int64 \<Rightarrow> uint32" where
  "getExpiration nw d =
     (let ttlSecond = (word_of_int (go_div (sint (d + 1000000000 - 1)) 1000000000) :: int64)
      in nw + ucast ttlSecond)"

definition defaultExpiration :: "('k, 'v) cache \<Rightarrow> uint32" where
  "defaultExpiration c = (if ttl c = 0 then 0 else now c + ttl c)"

subsection \<open>Get and Has\<close>

definition zeroValue :: "'v::zero" where
  "zeroValue = 0"

definition getReadBufferIdx :: "uint32 \<Rightarrow> ('k, 'v) cache \<Rightarrow> nat" where
  "getReadBufferIdx fastrand c = unat (fastrand AND mask c)"

text \<open>
  \<open>fastrand\<close> is the value that \<open>xruntime.Fastrand()\<close> returns in this call.
\<close>

definition afterGet ::
  "uint32 \<Rightarrow> ('k, 'v) node \<Rightarrow> ('k, 'v) cache \<Rightarrow> fault + ('k, 'v) cache"
where
  "afterGet fastrand got c =
     (let idx = getReadBufferIdx fastrand c in
      if length (readBuffers c) \<le> idx then Inl IndexOutOfRange
      else
        let (pb, b) = buffer_Add (readBuffers c ! idx) got;
            c1 = c\<lparr>readBuffers := (readBuffers c)[idx := b]\<rparr>
        in case pb of
             None \<Rightarrow> Inr c1
           | Some returned \<Rightarrow>
               (case Lock c1 of
                  Inl f \<Rightarrow> Inl f
                | Inr c2 \<Rightarrow>
                    let c3 = Unlock (log_event (PolicyRead returned) c2)
                    in Inr (c3\<lparr>readBuffers :=
                              (readBuffers c3)[idx := buffer_Free (readBuffers c3 ! idx)]\<rparr>)))"

definition Get ::
  "uint32 \<Rightarrow> 'k \<Rightarrow> ('k, 'v::zero) cache \<Rightarrow> fault + (('v \<times> bool) \<times> ('k, 'v) cache)"
where
  "Get fastrand k c =
     (case hashmap c k of
        None \<Rightarrow> Inr ((zeroValue, False), c\<lparr>stats := IncMisses (stats c)\<rparr>)
      | Some got \<Rightarrow>
          if \<not> IsAlive c got then Inr ((zeroValue, False), c\<lparr>stats := IncMisses (stats c)\<rparr>)
          else if IsExpired c got then
            (let c1 = Insert (DeleteTask got) c
             in Inr ((zeroValue, False), c1\<lparr>stats := IncMisses (stats c1)\<rparr>))
          else
            (case afterGet fastrand got c of
               Inl f \<Rightarrow> Inl f
             | Inr c1 \<Rightarrow> Inr ((val got, True), c1\<lparr>stats := IncHits (stats c1)\<rparr>)))"

definition Has ::
  "uint32 \<Rightarrow> 'k \<Rightarrow> ('k, 'v::zero) cache \<Rightarrow> fault + (bool \<times> ('k, 'v) cache)"
where
  "Has fastrand k c =
     (case Get fastrand k c of
        Inl f \<Rightarrow> Inl f
      | Inr ((_, ok), c') \<Rightarrow> Inr (ok, c'))"

subsection \<open>The Set variants\<close>

text \<open>The Go method \<open>set\<close>; the name \<open>set\<close> is taken by the lists of HOL.\<close>

definition set_cache ::
  "('k, 'v) policies \<Rightarrow> 'k \<Rightarrow> 'v \<Rightarrow> uint32 \<Rightarrow> bool \<Rightarrow> ('k, 'v) cache \<Rightarrow> bool \<times> ('k, 'v) cache"
where
  "set_cache P k v e onlyIfAbsent c =
     (let cst = costFunc c k v in
      if cst > MaxAvailableCost P (trace c) then (False, c)
      else
        let (n, c1) = Create c k v e cst in
        if onlyIfAbsent then
          (let (res, c2) = hashmap_SetIfAbsent n c1 in
           case res of
             None \<Rightarrow> (True, Insert (AddTask n) c2)
           | Some _ \<Rightarrow> (False, c2))
        else
          (let (evicted, c2) = hashmap_Set n c1 in
           case evicted of
             Some old \<Rightarrow> (True, Insert (UpdateTask n old) (Die old c2))
           | None \<Rightarrow> (True, Insert (AddTask n) c2)))"

definition Set ::
  "('k, 'v) policies \<Rightarrow> 'k \<Rightarrow> 'v \<Rightarrow> ('k, 'v) cache \<Rightarrow> bool \<times> ('k, 'v) cache"
where
  "Set P k v c = set_cache P k v (defaultExpiration c) False c"

definition SetWithTTL ::
  "('k, 'v) policies \<Rightarrow> 'k \<Rightarrow> 'v \<Rightarrow> int64 \<Rightarrow> ('k, 'v) cache \<Rightarrow> bool \<times> ('k, 'v) cache"
where
  "SetWithTTL P k v d c = set_cache P k v (getExpiration (now c) d) False c"

definition SetIfAbsent ::
  "('k, 'v) policies \<Rightarrow> 'k \<Rightarrow> 'v \<Rightarrow> ('k, 'v) cache \<Rightarrow> bool \<times> ('k, 'v) cache"
where
  "SetIfAbsent P k v c = set_cache P k v (defaultExpiration c) True c"

definition SetIfAbsentWithTTL ::
  "('k, 'v) policies \<Rightarrow> 'k \<Rightarrow> 'v \<Rightarrow> int64 \<Rightarrow> ('k, 'v) cache \<Rightarrow> bool \<times> ('k, 'v) cache"
where
  "SetIfAbsentWithTTL P k v d c = set_cache P k v (getExpiration (now c) d) True c"

subsection \<open>Delete\<close>

definition afterDelete :: "('k, 'v) node option \<Rightarrow> ('k, 'v) cache \<Rightarrow> ('k, 'v) cache" where
  "afterDelete deleted c =
     (case deleted of
        None \<Rightarrow> c
      | Some n \<Rightarrow> Insert (DeleteTask n) (Die n c))"

definition Delete :: "'k \<Rightarrow> ('k, 'v) cache \<Rightarrow> ('k, 'v) cache" where
  "Delete k c = (let (deleted, c1) = hashmap_Delete k c in afterDelete deleted c1)"

definition deleteNode :: "('k, 'v) node \<Rightarrow> ('k, 'v) cache \<Rightarrow> ('k, 'v) cache" where
  "deleteNode n c = (let (deleted, c1) = hashmap_DeleteNode n c in afterDelete deleted c1)"

subsection \<open>The maintenance loop\<close>

text \<open>The \<open>switch\<close> on one task of the batch (lines 352 to 365).\<close>

fun expire_task :: "('k, 'v) task \<Rightarrow> ('k, 'v) cache \<Rightarrow> ('k, 'v) cache" where
  "expire_task (DeleteTask n) c = log_event (ExpireDelete n) c"
| "expire_task (AddTask n) c = (if IsAlive c n then log_event (ExpireAdd n) c else c)"
| "expire_task (UpdateTask n old) c =
     (let c1 = log_event (ExpireDelete old) c
      in if IsAlive c1 n then log_event (ExpireAdd n) c1 else c1)"
| "expire_task _ c = c"

text \<open>The loop \<open>for _, n := range d\<close> of lines 375 to 378 and of lines 308 to 311.\<close>

definition delete_and_die :: "('k, 'v) node \<Rightarrow> ('k, 'v) cache \<Rightarrow> ('k, 'v) cache" where
  "delete_and_die n c = Die n (snd (hashmap_DeleteNode n c))"

definition bufferCapacity :: int where
  "bufferCapacity = 64"

text \<open>The branch \<open>if t.IsClear() || t.IsClose()\<close> (lines 325 to 342).\<close>

definition process_control :: "('k, 'v) task \<Rightarrow> ('k, 'v) cache \<Rightarrow> fault + ('k, 'v) cache" where
  "process_control t c =
     (let c1 = c\<lparr>buffer := [], writeBuffer := []\<rparr> in
      case Lock c1 of
        Inl f \<Rightarrow> Inl f
      | Inr c2 \<Rightarrow>
          let c3 = log_event ExpireClear (log_event PolicyClear c2);
              c4 = (if IsClose t then log_event SetIsClosed (c3\<lparr>isClosed := True\<rparr>) else c3);
              c5 = Unlock c4
          in if doneClear c5 then Inl BlockedForever
             else
               let c6 = log_event DoneClearSend (c5\<lparr>doneClear := True\<rparr>)
               in Inr (if IsClose t then c6\<lparr>process_exited := True\<rparr> else c6))"

text \<open>The branch \<open>if i >= bufferCapacity\<close> (lines 346 to 382), after \<open>i -= bufferCapacity\<close>.\<close>

definition process_batch :: "('k, 'v) policies \<Rightarrow> ('k, 'v) cache \<Rightarrow> fault + ('k, 'v) cache" where
  "process_batch P c =
     (case Lock c of
        Inl f \<Rightarrow> Inl f
      | Inr c1 \<Rightarrow>
          let c2 = fold expire_task (buffer c1) c1;
              d = Write P (trace c2) (buffer c2);
              c3 = log_event (PolicyWrite (buffer c2)) c2;
              c4 = fold (\<lambda>n. log_event (ExpireDelete n)) d c3;
              c5 = Unlock c4;
              c6 = fold delete_and_die d c5
          in Inr (c6\<lparr>buffer := []\<rparr>))"

text \<open>The body of the loop for the task \<open>t\<close> that \<open>Remove\<close> has returned.\<close>

definition process_task ::
  "('k, 'v) policies \<Rightarrow> ('k, 'v) task \<Rightarrow> ('k, 'v) cache \<Rightarrow> fault + ('k, 'v) cache"
where
  "process_task P t c =
     (if IsClear t \<or> IsClose t then process_control t c
      else
        let c1 = c\<lparr>buffer := buffer c @ [t], i_var := i_var c + 1\<rparr> in
        if i_var c1 \<ge> bufferCapacity
          then process_batch P (c1\<lparr>i_var := i_var c1 - bufferCapacity\<rparr>)
        else Inr c1)"

lemma Lock_writeBuffer: "Lock c = Inr c' \<Longrightarrow> writeBuffer c' = writeBuffer c"
  by (auto simp: Lock_def log_event_def split: if_splits)

lemma expire_task_writeBuffer: "writeBuffer (expire_task t c) = writeBuffer c"
  by (cases t) (simp_all add: log_event_def Let_def)

lemma fold_expire_task_writeBuffer: "writeBuffer (fold expire_task ts c) = writeBuffer c"
  by (induction ts arbitrary: c) (simp_all add: expire_task_writeBuffer)

lemma fold_log_writeBuffer:
  "writeBuffer (fold (\<lambda>n. log_event (f n)) ns c) = writeBuffer c"
  by (induction ns arbitrary: c) (simp_all add: log_event_def)

lemma delete_and_die_writeBuffer: "writeBuffer (delete_and_die n c) = writeBuffer c"
  by (simp add: delete_and_die_def Die_def hashmap_DeleteNode_def split: option.splits)

lemma fold_delete_and_die_writeBuffer:
  "writeBuffer (fold delete_and_die ns c) = writeBuffer c"
  by (induction ns arbitrary: c) (simp_all add: delete_and_die_writeBuffer)

lemma process_batch_writeBuffer:
  "process_batch P c = Inr c' \<Longrightarrow> writeBuffer c' = writeBuffer c"
  by (auto simp: process_batch_def Let_def Unlock_def log_event_def
        fold_delete_and_die_writeBuffer fold_log_writeBuffer fold_expire_task_writeBuffer
      dest!: Lock_writeBuffer split: sum.splits)

lemma process_control_writeBuffer:
  "process_control t c = Inr c' \<Longrightarrow> writeBuffer c' = []"
  by (auto simp: process_control_def Let_def Unlock_def log_event_def
      dest!: Lock_writeBuffer split: sum.splits if_splits)

lemma process_task_writeBuffer:
  "process_task P t c = Inr c' \<Longrightarrow> length (writeBuffer c') \<le> length (writeBuffer c)"
  by (auto simp: process_task_def Let_def
      dest!: process_control_writeBuffer process_batch_writeBuffer split: if_splits)

text \<open>
  The loop of \<open>process\<close>, run until \<open>Remove\<close> finds the queue empty (the loop then
  waits for the next task) or until the loop has left through \<open>break\<close>.
\<close>

function process :: "('k, 'v) policies \<Rightarrow> ('k, 'v) cache \<Rightarrow> fault + ('k, 'v) cache" where
  "process P c =
     (if process_exited c then Inr c
      else
        case writeBuffer c of
          [] \<Rightarrow> Inr c
        | t # q \<Rightarrow>
            (case process_task P t (c\<lparr>writeBuffer := q\<rparr>) of
               Inl f \<Rightarrow> Inl f
             | Inr c' \<Rightarrow> process P c'))"
  by pat_completeness auto
termination
proof (relation "measure (\<lambda>(P, c). length (writeBuffer c))")
  show "wf (measure (\<lambda>(P, c). length (writeBuffer c)))" by simp
next
  fix P :: "('k, 'v) policies" and c :: "('k, 'v) cache" and t q c'
  assume "writeBuffer c = t # q" and "process_task P t (c\<lparr>writeBuffer := q\<rparr>) = Inr c'"
  then show "((P, c'), (P, c)) \<in> measure (\<lambda>(P, c). length (writeBuffer c))"
    using process_task_writeBuffer [of P t "c\<lparr>writeBuffer := q\<rparr>" c'] by simp
qed

declare process.simps [simp del]

subsection \<open>The expiration sweeper\<close>

text \<open>One iteration of the loop of \<open>cleanup\<close>, after the sleep (lines 298 to 313).\<close>

definition cleanup_iteration ::
  "('k, 'v) policies \<Rightarrow> ('k, 'v) cache \<Rightarrow> fault + ('k, 'v) cache"
where
  "cleanup_iteration P c =
     (case Lock c of
        Inl f \<Rightarrow> Inl f
      | Inr c1 \<Rightarrow>
          if isClosed c1 then Inr (c1\<lparr>cleanup_exited := True\<rparr>)
          else
            let e = RemoveExpired P (trace c1) (now c1);
                c2 = log_event (PolicyDelete e) (log_event ExpireRemoveExpired c1);
                c3 = Unlock c2
            in Inr (fold delete_and_die e c3))"

subsection \<open>Clear and Close\<close>

text \<open>
  \<open>clear\<close> waits on the done channel. While it waits the maintenance loop runs; it
  sends after it has found the task in the queue.
\<close>

definition clear ::
  "('k, 'v) policies \<Rightarrow> ('k, 'v) task \<Rightarrow> ('k, 'v) cache \<Rightarrow> fault + ('k, 'v) cache"
where
  "clear P t c =
     (let c1 = hashmap_Clear c;
          c2 = c1\<lparr>readBuffers := map buffer_Clear (readBuffers c1)\<rparr>;
          c3 = Insert t c2
      in case process P c3 of
           Inl f \<Rightarrow> Inl f
         | Inr c4 \<Rightarrow>
             if doneClear c4 then
               (let c5 = log_event DoneClearRecv (c4\<lparr>doneClear := False\<rparr>)
                in Inr (c5\<lparr>stats := stats_Clear (stats c5)\<rparr>))
             else Inl BlockedForever)"

definition Clear :: "('k, 'v) policies \<Rightarrow> ('k, 'v) cache \<Rightarrow> fault + ('k, 'v) cache" where
  "Clear P c = clear P ClearTask c"

definition Close :: "('k, 'v) policies \<Rightarrow> ('k, 'v) cache \<Rightarrow> fault + ('k, 'v) cache" where
  "Close P c =
     (if closeOnce c then Inr c
      else
        case clear P CloseTask c of
          Inl f \<Rightarrow> Inl f
        | Inr c1 \<Rightarrow>
            let c2 = (if withExpiration c1 then log_event UnixtimeStop c1 else c1)
            in Inr (c2\<lparr>closeOnce := True\<rparr>))"

subsection \<open>Construction\<close>

record ('k, 'v) Config =
  Capacity :: int
  InitialCapacity :: "int option"
  StatsEnabled :: bool
  TTL :: "int64 option"
  WithVariableTTL :: bool
  CostFunc :: "'k \<Rightarrow> 'v \<Rightarrow> uint32"
  WithCost :: bool

text \<open>
  Modelled from the spec: \<open>lossy.New\<close> lies outside internal/core/cache.go; the spec
  gives 16 as a reasonable capacity of a read buffer.
\<close>

definition lossy_New :: "('k, 'v) lossy_buffer" where
  "lossy_New = \<lparr>capacity = 16, items = [], handed_out = False\<rparr>"

text \<open>
  \<open>NewCache\<close>. The parameter \<open>roundUp\<close> is the \<open>uint32\<close> that
  \<open>xmath.RoundUpPowerOf2(xruntime.Parallelism())\<close> returns and \<open>clock\<close> the value
  of the seconds clock; the eviction and expiration policies that \<open>NewCache\<close> creates
  are the parameter \<open>P\<close> of the operations. The maintenance loop is started: nothing
  is in the queue, the batch is empty and \<open>i\<close> is 0.
\<close>

definition NewCache :: "uint32 \<Rightarrow> uint32 \<Rightarrow> ('k, 'v) Config \<Rightarrow> ('k, 'v) cache" where
  "NewCache roundUp clock cfg =
     (let roundedParallelism = uint roundUp;
          readBuffersCount = 4 * roundedParallelism
      in \<lparr>hashmap = Map.empty,
          alive = (\<lambda>_. False),
          next_nid = 0,
          stats = (if StatsEnabled cfg then Some \<lparr>hits = 0, misses = 0\<rparr> else None),
          readBuffers = replicate (nat readBuffersCount) lossy_New,
          writeBuffer = [],
          evictionMutex = False,
          closeOnce = False,
          doneClear = False,
          costFunc = CostFunc cfg,
          mask = word_of_int (readBuffersCount - 1),
          ttl = (case TTL cfg of
                   None \<Rightarrow> 0
                 | Some d \<Rightarrow>
                     ucast (word_of_int (go_div (sint (d + 1000000000 - 1)) 1000000000) :: int64)),
          withExpiration = (TTL cfg \<noteq> None \<or> WithVariableTTL cfg),
          isClosed = False,
          now = clock,
          buffer = [],
          i_var = 0,
          process_exited = False,
          cleanup_exited = False,
          trace = []\<rparr>)"

section \<open>Example inputs\<close>

text \<open>
  A configuration with capacity 10, statistics, no expiration and unit cost; a
  configuration whose cost function returns the value as a \<open>uint32\<close>; policies that
  admit a cost of at most 5 and never evict or expire anything.
\<close>

definition unit_cost_config :: "(nat, int) Config" where
  "unit_cost_config =
     \<lparr>Capacity = 10, InitialCapacity = None, StatsEnabled = True, TTL = None,
      WithVariableTTL = False, CostFunc = (\<lambda>_ _. 1), WithCost = False\<rparr>"

definition value_cost_config :: "(nat, int) Config" where
  "value_cost_config = unit_cost_config\<lparr>CostFunc := (\<lambda>_ v. word_of_int v), WithCost := True\<rparr>"

definition idle_policies :: "(nat, int) policies" where
  "idle_policies =
     \<lparr>MaxAvailableCost = (\<lambda>_. 5), Write = (\<lambda>_ _. []), RemoveExpired = (\<lambda>_ _. [])\<rparr>"

section \<open>The Set variants\<close>

lemma set_cache_rejected:
  "MaxAvailableCost P (trace c) < costFunc c k v \<Longrightarrow> set_cache P k v e b c = (False, c)"
  by (simp add: set_cache_def)

lemma Create_next_nid: "next_nid (snd (Create c k v e cst)) = next_nid c + 1"
  by (simp add: Create_def)

lemma set_cache_admitted_unconditional:
  "costFunc c k v \<le> MaxAvailableCost P (trace c) \<Longrightarrow>
   set_cache P k v e False c =
     (let n = \<lparr>nid = next_nid c, key = k, val = v, expiration = e, cost = costFunc c k v\<rparr>;
          c1 = c\<lparr>hashmap := (hashmap c)(k \<mapsto> n),
                 alive := (alive c)(next_nid c := True),
                 next_nid := next_nid c + 1\<rparr>
      in case hashmap c k of
           None \<Rightarrow> (True, c1\<lparr>writeBuffer := writeBuffer c @ [AddTask n]\<rparr>)
         | Some old \<Rightarrow>
             (True, c1\<lparr>alive := (alive c1)(nid old := False),
                       writeBuffer := writeBuffer c @ [UpdateTask n old]\<rparr>))"
  by (simp add: set_cache_def Create_def hashmap_Set_def Insert_def Die_def Let_def
      not_less [symmetric] split: option.splits)

lemma set_cache_admitted_if_absent:
  "costFunc c k v \<le> MaxAvailableCost P (trace c) \<Longrightarrow>
   set_cache P k v e True c =
     (let n = \<lparr>nid = next_nid c, key = k, val = v, expiration = e, cost = costFunc c k v\<rparr>;
          c1 = c\<lparr>alive := (alive c)(next_nid c := True), next_nid := next_nid c + 1\<rparr>
      in case hashmap c k of
           None \<Rightarrow> (True, c1\<lparr>hashmap := (hashmap c)(k \<mapsto> n),
                               writeBuffer := writeBuffer c @ [AddTask n]\<rparr>)
         | Some old \<Rightarrow> (False, c1))"
  by (simp add: set_cache_def Create_def hashmap_SetIfAbsent_def Insert_def Let_def
      not_less [symmetric] split: option.splits)

text \<open>
  C3. When the cost of the pair exceeds \<open>MaxAvailableCost\<close>, each of Set, SetWithTTL,
  SetIfAbsent and SetIfAbsentWithTTL returns false and leaves the whole cache state as it
  was: the hash table, the node manager and the write queue are unchanged. When the cost
  equals \<open>MaxAvailableCost\<close> the check lets the call through: each variant creates its
  node, the unconditional variants return true, and the if-absent variants return true
  exactly when the hash table has no node for the key.
\<close>

theorem Set_cost_check:
  "(MaxAvailableCost P (trace c) < costFunc c k v \<longrightarrow>
      Set P k v c = (False, c) \<and> SetWithTTL P k v d c = (False, c) \<and>
      SetIfAbsent P k v c = (False, c) \<and> SetIfAbsentWithTTL P k v d c = (False, c))
   \<and> (costFunc c k v = MaxAvailableCost P (trace c) \<longrightarrow>
      fst (Set P k v c) \<and> fst (SetWithTTL P k v d c) \<and>
      fst (SetIfAbsent P k v c) = (hashmap c k = None) \<and>
      fst (SetIfAbsentWithTTL P k v d c) = (hashmap c k = None) \<and>
      next_nid (snd (Set P k v c)) = next_nid c + 1 \<and>
      next_nid (snd (SetWithTTL P k v d c)) = next_nid c + 1 \<and>
      next_nid (snd (SetIfAbsent P k v c)) = next_nid c + 1 \<and>
      next_nid (snd (SetIfAbsentWithTTL P k v d c)) = next_nid c + 1)"
proof (intro conjI impI)
  assume over: "MaxAvailableCost P (trace c) < costFunc c k v"
  show "Set P k v c = (False, c)" "SetWithTTL P k v d c = (False, c)"
    "SetIfAbsent P k v c = (False, c)" "SetIfAbsentWithTTL P k v d c = (False, c)"
    using over
    by (simp_all add: Set_def SetWithTTL_def SetIfAbsent_def SetIfAbsentWithTTL_def
        set_cache_rejected)
next
  assume eq: "costFunc c k v = MaxAvailableCost P (trace c)"
  then have adm: "costFunc c k v \<le> MaxAvailableCost P (trace c)" by simp
  show "fst (Set P k v c)" "fst (SetWithTTL P k v d c)"
    "next_nid (snd (Set P k v c)) = next_nid c + 1"
    "next_nid (snd (SetWithTTL P k v d c)) = next_nid c + 1"
    by (simp_all add: Set_def SetWithTTL_def set_cache_admitted_unconditional [OF adm]
        Let_def split: option.splits)
  show "fst (SetIfAbsent P k v c) = (hashmap c k = None)"
    "fst (SetIfAbsentWithTTL P k v d c) = (hashmap c k = None)"
    "next_nid (snd (SetIfAbsent P k v c)) = next_nid c + 1"
    "next_nid (snd (SetIfAbsentWithTTL P k v d c)) = next_nid c + 1"
    by (simp_all add: SetIfAbsent_def SetIfAbsentWithTTL_def
        set_cache_admitted_if_absent [OF adm] Let_def split: option.splits)
qed

theorem Set_cost_check_witness:
  "MaxAvailableCost idle_policies (trace (NewCache 1 0 value_cost_config))
     < costFunc (NewCache 1 0 value_cost_config) 7 6
   \<and> Set idle_policies 7 6 (NewCache 1 0 value_cost_config)
     = (False, NewCache 1 0 value_cost_config)
   \<and> costFunc (NewCache 1 0 value_cost_config) 7 5
     = MaxAvailableCost idle_policies (trace (NewCache 1 0 value_cost_config))
   \<and> fst (Set idle_policies 7 5 (NewCache 1 0 value_cost_config))"
proof -
  let ?c = "NewCache 1 0 value_cost_config"
  have over: "MaxAvailableCost idle_policies (trace ?c) < costFunc ?c 7 6"
    by (simp add: NewCache_def value_cost_config_def unit_cost_config_def idle_policies_def)
  have eq: "costFunc ?c 7 5 = MaxAvailableCost idle_policies (trace ?c)"
    by (simp add: NewCache_def value_cost_config_def unit_cost_config_def idle_policies_def)
  from over eq show ?thesis
    using Set_cost_check [of idle_policies ?c 7 6 0] Set_cost_check [of idle_policies ?c 7 5 0]
    by blast
qed

section \<open>Delete\<close>

lemma Delete_present:
  "hashmap c k = Some n \<Longrightarrow>
   Delete k c = c\<lparr>hashmap := (hashmap c)(k := None),
                  alive := (alive c)(nid n := False),
                  writeBuffer := writeBuffer c @ [DeleteTask n]\<rparr>"
  by (simp add: Delete_def hashmap_Delete_def afterDelete_def Die_def Insert_def)

lemma Delete_absent: "hashmap c k = None \<Longrightarrow> Delete k c = c"
proof -
  assume "hashmap c k = None"
  then have "(hashmap c)(k := None) = hashmap c"
    by (simp add: fun_upd_idem)
  then show ?thesis
    by (simp add: Delete_def hashmap_Delete_def afterDelete_def \<open>hashmap c k = None\<close>)
qed

lemma hashmap_Delete: "hashmap (Delete k c) = (hashmap c)(k := None)"
  by (simp add: Delete_def hashmap_Delete_def afterDelete_def Die_def Insert_def
      split: option.splits)

text \<open>
  C7. Delete removes the node of the key from the hash table. When a node was removed,
  Delete marks it dead and appends a Delete task for it to the write queue; when the key
  had no node, Delete changes nothing. After a Delete the key has no node, so a second
  Delete of the same key right after the first changes nothing: no node dies and no task
  is enqueued.
\<close>

theorem Delete_removes_once:
  "(\<forall>n. hashmap c k = Some n \<longrightarrow>
      Delete k c = c\<lparr>hashmap := (hashmap c)(k := None),
                     alive := (alive c)(nid n := False),
                     writeBuffer := writeBuffer c @ [DeleteTask n]\<rparr>)
   \<and> (hashmap c k = None \<longrightarrow> Delete k c = c)
   \<and> hashmap (Delete k c) k = None
   \<and> Delete k (Delete k c) = Delete k c"
proof (intro conjI allI impI)
  show "hashmap (Delete k c) k = None"
    by (simp add: hashmap_Delete)
  then show "Delete k (Delete k c) = Delete k c"
    by (rule Delete_absent)
qed (simp_all add: Delete_present Delete_absent)

theorem Delete_removes_once_witness:
  "hashmap (snd (Set idle_policies 7 1 (NewCache 1 0 unit_cost_config))) 7
     = Some \<lparr>nid = 0, key = 7, val = 1, expiration = 0, cost = 1\<rparr>
   \<and> writeBuffer (Delete 7 (snd (Set idle_policies 7 1 (NewCache 1 0 unit_cost_config))))
     = [AddTask \<lparr>nid = 0, key = 7, val = 1, expiration = 0, cost = 1\<rparr>,
        DeleteTask \<lparr>nid = 0, key = 7, val = 1, expiration = 0, cost = 1\<rparr>]
   \<and> \<not> alive (Delete 7 (snd (Set idle_policies 7 1 (NewCache 1 0 unit_cost_config)))) 0
   \<and> hashmap (NewCache 1 0 unit_cost_config) 7 = None
   \<and> Delete 7 (NewCache 1 0 unit_cost_config) = NewCache 1 0 unit_cost_config"
proof -
  let ?c0 = "NewCache 1 0 unit_cost_config"
  let ?c1 = "snd (Set idle_policies 7 1 ?c0)"
  let ?n = "\<lparr>nid = 0, key = 7, val = 1, expiration = 0, cost = 1\<rparr> :: (nat, int) node"
  have adm: "costFunc ?c0 7 1 \<le> MaxAvailableCost idle_policies (trace ?c0)"
    by (simp add: NewCache_def unit_cost_config_def idle_policies_def)
  have absent: "hashmap ?c0 7 = None"
    by (simp add: NewCache_def)
  have c1: "?c1 = ?c0\<lparr>hashmap := (hashmap ?c0)(7 \<mapsto> ?n),
                       alive := (alive ?c0)(0 := True),
                       next_nid := 1,
                       writeBuffer := [AddTask ?n]\<rparr>"
    unfolding Set_def set_cache_admitted_unconditional [OF adm] Let_def absent
    by (simp add: NewCache_def unit_cost_config_def defaultExpiration_def)
  have present: "hashmap ?c1 7 = Some ?n"
    unfolding c1 by simp
  have wb: "writeBuffer ?c1 = [AddTask ?n]"
    unfolding c1 by simp
  from present wb absent show ?thesis
    using Delete_removes_once [of ?c1 7] Delete_removes_once [of ?c0 7]
    by simp
qed

section \<open>Get and Has\<close>

lemma Get_absent:
  "hashmap c k = None \<Longrightarrow>
   Get fastrand k c = Inr ((zeroValue, False), c\<lparr>stats := IncMisses (stats c)\<rparr>)"
  by (simp add: Get_def)

lemma Get_dead:
  "hashmap c k = Some n \<Longrightarrow> \<not> IsAlive c n \<Longrightarrow>
   Get fastrand k c = Inr ((zeroValue, False), c\<lparr>stats := IncMisses (stats c)\<rparr>)"
  by (simp add: Get_def)

lemma Get_expired:
  "hashmap c k = Some n \<Longrightarrow> IsAlive c n \<Longrightarrow> IsExpired c n \<Longrightarrow>
   Get fastrand k c =
     Inr ((zeroValue, False),
          c\<lparr>writeBuffer := writeBuffer c @ [DeleteTask n], stats := IncMisses (stats c)\<rparr>)"
  by (simp add: Get_def Insert_def)

lemma getReadBufferIdx_le: "getReadBufferIdx fastrand c \<le> unat (mask c)"
  unfolding getReadBufferIdx_def
  by (rule word_and_le1 [THEN word_le_nat_alt [THEN iffD1]])

lemma afterGet_returns:
  assumes "unat (mask c) < length (readBuffers c)" and "\<not> evictionMutex c"
  shows "afterGet fastrand n c =
     (let idx = getReadBufferIdx fastrand c;
          (pb, b) = buffer_Add (readBuffers c ! idx) n
      in case pb of
           None \<Rightarrow> Inr (c\<lparr>readBuffers := (readBuffers c)[idx := b]\<rparr>)
         | Some returned \<Rightarrow>
             Inr (c\<lparr>readBuffers := (readBuffers c)[idx := buffer_Free b],
                    evictionMutex := False,
                    trace := trace c @ [MutexLock, PolicyRead returned, MutexUnlock]\<rparr>))"
proof -
  have "getReadBufferIdx fastrand c < length (readBuffers c)"
    using getReadBufferIdx_le [of fastrand c] assms(1) by simp
  with assms(2) show ?thesis
    by (simp add: afterGet_def Let_def Lock_def Unlock_def log_event_def
        split: prod.splits option.splits)
qed

lemma Get_hit:
  assumes "hashmap c k = Some n" and "IsAlive c n" and "\<not> IsExpired c n"
    and "unat (mask c) < length (readBuffers c)" and "\<not> evictionMutex c"
  shows "Get fastrand k c =
     (let idx = getReadBufferIdx fastrand c;
          (pb, b) = buffer_Add (readBuffers c ! idx) n
      in case pb of
           None \<Rightarrow>
             Inr ((val n, True),
                  c\<lparr>readBuffers := (readBuffers c)[idx := b], stats := IncHits (stats c)\<rparr>)
         | Some returned \<Rightarrow>
             Inr ((val n, True),
                  c\<lparr>readBuffers := (readBuffers c)[idx := buffer_Free b],
                    evictionMutex := False,
                    trace := trace c @ [MutexLock, PolicyRead returned, MutexUnlock],
                    stats := IncHits (stats c)\<rparr>))"
  using assms(1-3)
  by (simp add: Get_def afterGet_returns [OF assms(4,5)] Let_def
      split: prod.splits option.splits)

subsection \<open>Example states\<close>

text \<open>
  A fresh cache; the same cache after \<open>Set(7, 1)\<close>; a cache with a fixed TTL of one
  second after \<open>Set(7, 1)\<close> at time 0, looked at when the clock shows 2.
\<close>

definition fresh_cache :: "(nat, int) cache" where
  "fresh_cache = NewCache 1 0 unit_cost_config"

definition entry_node :: "(nat, int) node" where
  "entry_node = \<lparr>nid = 0, key = 7, val = 1, expiration = 0, cost = 1\<rparr>"

definition entry_cache :: "(nat, int) cache" where
  "entry_cache = snd (Set idle_policies 7 1 fresh_cache)"

definition ttl_config :: "(nat, int) Config" where
  "ttl_config = unit_cost_config\<lparr>TTL := Some 1000000000\<rparr>"

definition ttl_node :: "(nat, int) node" where
  "ttl_node = \<lparr>nid = 0, key = 7, val = 1, expiration = 1, cost = 1\<rparr>"

definition stale_cache :: "(nat, int) cache" where
  "stale_cache = (snd (Set idle_policies 7 1 (NewCache 1 0 ttl_config)))\<lparr>now := 2\<rparr>"

lemma fresh_cache_admits:
  "costFunc fresh_cache k v \<le> MaxAvailableCost idle_policies (trace fresh_cache)"
  by (simp add: fresh_cache_def NewCache_def unit_cost_config_def idle_policies_def)

lemma hashmap_fresh_cache: "hashmap fresh_cache k = None"
  by (simp add: fresh_cache_def NewCache_def)

lemma entry_cache_eq:
  "entry_cache = fresh_cache\<lparr>hashmap := [7 \<mapsto> entry_node],
                             alive := (\<lambda>_. False)(0 := True),
                             next_nid := 1,
                             writeBuffer := [AddTask entry_node]\<rparr>"
  unfolding entry_cache_def Set_def set_cache_admitted_unconditional [OF fresh_cache_admits]
    Let_def hashmap_fresh_cache
  by (simp add: fresh_cache_def NewCache_def unit_cost_config_def defaultExpiration_def
      entry_node_def)

lemma ttl_of_ttl_config: "ttl (NewCache 1 0 ttl_config) = 1"
  by (simp add: NewCache_def ttl_config_def unit_cost_config_def go_div_def)

lemma stale_cache_eq:
  "stale_cache = (NewCache 1 0 ttl_config)\<lparr>hashmap := [7 \<mapsto> ttl_node],
                             alive := (\<lambda>_. False)(0 := True),
                             next_nid := 1,
                             writeBuffer := [AddTask ttl_node],
                             now := 2\<rparr>"
proof -
  let ?c = "NewCache 1 0 ttl_config"
  have adm: "costFunc ?c 7 1 \<le> MaxAvailableCost idle_policies (trace ?c)"
    by (simp add: NewCache_def ttl_config_def unit_cost_config_def idle_policies_def)
  have absent: "hashmap ?c 7 = None"
    by (simp add: NewCache_def)
  have exp: "defaultExpiration ?c = 1"
    by (simp add: defaultExpiration_def ttl_of_ttl_config) (simp add: NewCache_def)
  show ?thesis
    unfolding stale_cache_def Set_def set_cache_admitted_unconditional [OF adm] Let_def
      absent exp
    by (simp add: NewCache_def ttl_config_def unit_cost_config_def ttl_node_def)
qed

subsection \<open>Get\<close>

text \<open>
  C4. Get returns (zero value, false) and calls \<open>IncMisses\<close> when the hash table has no
  node for the key or the node found is not alive, and changes nothing else. When the
  node is alive and expired, Get also appends a Delete task for it to the write queue.
  Otherwise Get returns (the node's value, true), calls \<open>IncHits\<close> and adds the node to
  the read buffer chosen by \<open>fastrand AND mask\<close>; when the buffer hands out a batch, Get
  passes it to \<open>policy.Read\<close> under the policy mutex and frees the buffer. This last case
  is stated for a cache whose mask indexes inside \<open>readBuffers\<close>, as \<open>NewCache\<close> builds
  it, and whose policy mutex is free. With statistics enabled \<open>IncMisses\<close> and
  \<open>IncHits\<close> add one to their counter.
\<close>

theorem Get_cases:
  "(hashmap c k = None \<or> (\<exists>n. hashmap c k = Some n \<and> \<not> IsAlive c n) \<longrightarrow>
      Get fastrand k c = Inr ((zeroValue, False), c\<lparr>stats := IncMisses (stats c)\<rparr>))
   \<and> (\<forall>n. hashmap c k = Some n \<and> IsAlive c n \<and> IsExpired c n \<longrightarrow>
      Get fastrand k c =
        Inr ((zeroValue, False),
             c\<lparr>writeBuffer := writeBuffer c @ [DeleteTask n],
               stats := IncMisses (stats c)\<rparr>))
   \<and> (\<forall>n. hashmap c k = Some n \<and> IsAlive c n \<and> \<not> IsExpired c n \<and>
          unat (mask c) < length (readBuffers c) \<and> \<not> evictionMutex c \<longrightarrow>
      Get fastrand k c =
        (let idx = getReadBufferIdx fastrand c;
             (pb, b) = buffer_Add (readBuffers c ! idx) n
         in case pb of
              None \<Rightarrow>
                Inr ((val n, True),
                     c\<lparr>readBuffers := (readBuffers c)[idx := b],
                       stats := IncHits (stats c)\<rparr>)
            | Some returned \<Rightarrow>
                Inr ((val n, True),
                     c\<lparr>readBuffers := (readBuffers c)[idx := buffer_Free b],
                       evictionMutex := False,
                       trace := trace c @ [MutexLock, PolicyRead returned, MutexUnlock],
                       stats := IncHits (stats c)\<rparr>)))
   \<and> (\<forall>st. stats c = Some st \<longrightarrow>
          IncMisses (stats c) = Some (st\<lparr>misses := misses st + 1\<rparr>) \<and>
          IncHits (stats c) = Some (st\<lparr>hits := hits st + 1\<rparr>))"
proof (intro conjI allI impI)
  assume "hashmap c k = None \<or> (\<exists>n. hashmap c k = Some n \<and> \<not> IsAlive c n)"
  then show "Get fastrand k c = Inr ((zeroValue, False), c\<lparr>stats := IncMisses (stats c)\<rparr>)"
    by (auto simp: Get_absent Get_dead)
next
  fix n
  assume "hashmap c k = Some n \<and> IsAlive c n \<and> IsExpired c n"
  then show "Get fastrand k c =
        Inr ((zeroValue, False),
             c\<lparr>writeBuffer := writeBuffer c @ [DeleteTask n],
               stats := IncMisses (stats c)\<rparr>)"
    by (simp add: Get_expired)
next
  fix n
  assume "hashmap c k = Some n \<and> IsAlive c n \<and> \<not> IsExpired c n \<and>
          unat (mask c) < length (readBuffers c) \<and> \<not> evictionMutex c"
  then show "Get fastrand k c =
        (let idx = getReadBufferIdx fastrand c;
             (pb, b) = buffer_Add (readBuffers c ! idx) n
         in case pb of
              None \<Rightarrow>
                Inr ((val n, True),
                     c\<lparr>readBuffers := (readBuffers c)[idx := b],
                       stats := IncHits (stats c)\<rparr>)
            | Some returned \<Rightarrow>
                Inr ((val n, True),
                     c\<lparr>readBuffers := (readBuffers c)[idx := buffer_Free b],
                       evictionMutex := False,
                       trace := trace c @ [MutexLock, PolicyRead returned, MutexUnlock],
                       stats := IncHits (stats c)\<rparr>))"
    using Get_hit [of c k n fastrand] by blast
qed (simp_all add: IncMisses_def IncHits_def)

theorem Get_cases_witness:
  "hashmap fresh_cache 7 = None
   \<and> Get 0 7 fresh_cache
     = Inr ((0, False), fresh_cache\<lparr>stats := Some \<lparr>hits = 0, misses = 1\<rparr>\<rparr>)
   \<and> hashmap stale_cache 7 = Some ttl_node \<and> IsAlive stale_cache ttl_node
   \<and> IsExpired stale_cache ttl_node
   \<and> Get 0 7 stale_cache
     = Inr ((0, False),
            stale_cache\<lparr>writeBuffer := [AddTask ttl_node, DeleteTask ttl_node],
                         stats := Some \<lparr>hits = 0, misses = 1\<rparr>\<rparr>)
   \<and> hashmap entry_cache 7 = Some entry_node \<and> IsAlive entry_cache entry_node
   \<and> \<not> IsExpired entry_cache entry_node
   \<and> unat (mask entry_cache) < length (readBuffers entry_cache)
   \<and> \<not> evictionMutex entry_cache
   \<and> Get 0 7 entry_cache
     = Inr ((1, True),
            entry_cache\<lparr>readBuffers :=
                           lossy_New\<lparr>items := [entry_node]\<rparr> # replicate 3 lossy_New,
                         stats := Some \<lparr>hits = 1, misses = 0\<rparr>\<rparr>)"
proof -
  have stats_fresh: "stats fresh_cache = Some \<lparr>hits = 0, misses = 0\<rparr>"
    by (simp add: fresh_cache_def NewCache_def unit_cost_config_def)
  have a: "Get 0 7 fresh_cache
     = Inr ((0, False), fresh_cache\<lparr>stats := Some \<lparr>hits = 0, misses = 1\<rparr>\<rparr>)"
    using Get_cases [of fresh_cache 7 0] hashmap_fresh_cache [of 7] stats_fresh
    by (simp add: zeroValue_def)
  have s1: "hashmap stale_cache 7 = Some ttl_node" "IsAlive stale_cache ttl_node"
    "IsExpired stale_cache ttl_node"
    "writeBuffer stale_cache = [AddTask ttl_node]"
    "stats stale_cache = Some \<lparr>hits = 0, misses = 0\<rparr>"
    unfolding stale_cache_eq
    by (simp_all add: IsAlive_def IsExpired_def ttl_node_def NewCache_def ttl_config_def
        unit_cost_config_def)
  have b: "Get 0 7 stale_cache
     = Inr ((0, False),
            stale_cache\<lparr>writeBuffer := [AddTask ttl_node, DeleteTask ttl_node],
                         stats := Some \<lparr>hits = 0, misses = 1\<rparr>\<rparr>)"
    using Get_cases [of stale_cache 7 0] s1
    by (simp add: zeroValue_def)
  have e1: "hashmap entry_cache 7 = Some entry_node" "IsAlive entry_cache entry_node"
    "\<not> IsExpired entry_cache entry_node"
    "unat (mask entry_cache) < length (readBuffers entry_cache)"
    "\<not> evictionMutex entry_cache"
    "stats entry_cache = Some \<lparr>hits = 0, misses = 0\<rparr>"
    "readBuffers entry_cache = replicate 4 lossy_New"
    "getReadBufferIdx 0 entry_cache = 0"
    unfolding entry_cache_eq
    by (simp_all add: IsAlive_def IsExpired_def entry_node_def fresh_cache_def NewCache_def
        unit_cost_config_def getReadBufferIdx_def)
  have add: "buffer_Add lossy_New entry_node = (None, lossy_New\<lparr>items := [entry_node]\<rparr>)"
    by (simp add: buffer_Add_def lossy_New_def)
  have r4: "replicate 4 lossy_New = (lossy_New :: (nat, int) lossy_buffer) # replicate 3 lossy_New"
    by (simp add: numeral_Bit0 numeral_Bit1)
  have c: "Get 0 7 entry_cache
     = Inr ((1, True),
            entry_cache\<lparr>readBuffers :=
                           lossy_New\<lparr>items := [entry_node]\<rparr> # replicate 3 lossy_New,
                         stats := Some \<lparr>hits = 1, misses = 0\<rparr>\<rparr>)"
    using Get_cases [of entry_cache 7 0] e1(1-6)
    by (simp add: e1(7,8) r4 add) (simp add: entry_node_def)
  from a b c s1(1-3) e1(1-5) hashmap_fresh_cache [of 7] show ?thesis
    by blast
qed

subsection \<open>Has\<close>

text \<open>
  C10. Has returns the boolean component of what Get returns on the same state and leaves
  the cache in the state Get leaves it in (and fails where Get fails). So it has the side
  effects of Get: \<open>IncMisses\<close> when the key has no node or a dead node; \<open>IncMisses\<close>
  and a Delete task in the write queue when the node is alive and expired;
  \<open>IncHits\<close> and the node added to the selected read buffer when the node is alive and
  not expired (this case for a cache whose mask indexes inside \<open>readBuffers\<close> and whose
  policy mutex is free).
\<close>

theorem Has_is_Get:
  "Has fastrand k c =
     (case Get fastrand k c of Inl f \<Rightarrow> Inl f | Inr (r, c') \<Rightarrow> Inr (snd r, c'))
   \<and> (hashmap c k = None \<or> (\<exists>n. hashmap c k = Some n \<and> \<not> IsAlive c n) \<longrightarrow>
      Has fastrand k c = Inr (False, c\<lparr>stats := IncMisses (stats c)\<rparr>))
   \<and> (\<forall>n. hashmap c k = Some n \<and> IsAlive c n \<and> IsExpired c n \<longrightarrow>
      Has fastrand k c =
        Inr (False, c\<lparr>writeBuffer := writeBuffer c @ [DeleteTask n],
                      stats := IncMisses (stats c)\<rparr>))
   \<and> (\<forall>n. hashmap c k = Some n \<and> IsAlive c n \<and> \<not> IsExpired c n \<and>
          unat (mask c) < length (readBuffers c) \<and> \<not> evictionMutex c \<longrightarrow>
      Has fastrand k c =
        (let idx = getReadBufferIdx fastrand c;
             (pb, b) = buffer_Add (readBuffers c ! idx) n
         in case pb of
              None \<Rightarrow>
                Inr (True, c\<lparr>readBuffers := (readBuffers c)[idx := b],
                             stats := IncHits (stats c)\<rparr>)
            | Some returned \<Rightarrow>
                Inr (True,
                     c\<lparr>readBuffers := (readBuffers c)[idx := buffer_Free b],
                       evictionMutex := False,
                       trace := trace c @ [MutexLock, PolicyRead returned, MutexUnlock],
                       stats := IncHits (stats c)\<rparr>)))"
proof (intro conjI allI impI)
  show "Has fastrand k c =
     (case Get fastrand k c of Inl f \<Rightarrow> Inl f | Inr (r, c') \<Rightarrow> Inr (snd r, c'))"
    by (simp add: Has_def split: sum.splits prod.splits)
next
  assume "hashmap c k = None \<or> (\<exists>n. hashmap c k = Some n \<and> \<not> IsAlive c n)"
  then show "Has fastrand k c = Inr (False, c\<lparr>stats := IncMisses (stats c)\<rparr>)"
    by (auto simp: Has_def Get_absent Get_dead)
next
  fix n
  assume "hashmap c k = Some n \<and> IsAlive c n \<and> IsExpired c n"
  then show "Has fastrand k c =
        Inr (False, c\<lparr>writeBuffer := writeBuffer c @ [DeleteTask n],
                      stats := IncMisses (stats c)\<rparr>)"
    by (simp add: Has_def Get_expired)
next
  fix n
  assume h: "hashmap c k = Some n \<and> IsAlive c n \<and> \<not> IsExpired c n \<and>
          unat (mask c) < length (readBuffers c) \<and> \<not> evictionMutex c"
  then have "Get fastrand k c =
     (let idx = getReadBufferIdx fastrand c;
          (pb, b) = buffer_Add (readBuffers c ! idx) n
      in case pb of
           None \<Rightarrow>
             Inr ((val n, True),
                  c\<lparr>readBuffers := (readBuffers c)[idx := b], stats := IncHits (stats c)\<rparr>)
         | Some returned \<Rightarrow>
             Inr ((val n, True),
                  c\<lparr>readBuffers := (readBuffers c)[idx := buffer_Free b],
                    evictionMutex := False,
                    trace := trace c @ [MutexLock, PolicyRead returned, MutexUnlock],
                    stats := IncHits (stats c)\<rparr>))"
    using Get_hit [of c k n fastrand] by blast
  then show "Has fastrand k c =
        (let idx = getReadBufferIdx fastrand c;
             (pb, b) = buffer_Add (readBuffers c ! idx) n
         in case pb of
              None \<Rightarrow>
                Inr (True, c\<lparr>readBuffers := (readBuffers c)[idx := b],
                             stats := IncHits (stats c)\<rparr>)
            | Some returned \<Rightarrow>
                Inr (True,
                     c\<lparr>readBuffers := (readBuffers c)[idx := buffer_Free b],
                       evictionMutex := False,
                       trace := trace c @ [MutexLock, PolicyRead returned, MutexUnlock],
                       stats := IncHits (stats c)\<rparr>))"
    by (simp add: Has_def Let_def split: prod.splits option.splits)
qed

lemma entry_cache_facts:
  "hashmap entry_cache 7 = Some entry_node" "IsAlive entry_cache entry_node"
  "\<not> IsExpired entry_cache entry_node"
  "unat (mask entry_cache) < length (readBuffers entry_cache)"
  "\<not> evictionMutex entry_cache"
  "stats entry_cache = Some \<lparr>hits = 0, misses = 0\<rparr>"
  "readBuffers entry_cache = replicate 4 lossy_New"
  "getReadBufferIdx fastrand entry_cache = unat (fastrand AND 3)"
  unfolding entry_cache_eq
  by (simp_all add: IsAlive_def IsExpired_def entry_node_def fresh_cache_def NewCache_def
      unit_cost_config_def getReadBufferIdx_def)

lemma stale_cache_facts:
  "hashmap stale_cache 7 = Some ttl_node" "IsAlive stale_cache ttl_node"
  "IsExpired stale_cache ttl_node"
  "writeBuffer stale_cache = [AddTask ttl_node]"
  "stats stale_cache = Some \<lparr>hits = 0, misses = 0\<rparr>"
  unfolding stale_cache_eq
  by (simp_all add: IsAlive_def IsExpired_def ttl_node_def NewCache_def ttl_config_def
      unit_cost_config_def)

theorem Has_is_Get_witness:
  "hashmap fresh_cache 7 = None
   \<and> Has 0 7 fresh_cache = Inr (False, fresh_cache\<lparr>stats := IncMisses (stats fresh_cache)\<rparr>)
   \<and> hashmap stale_cache 7 = Some ttl_node \<and> IsAlive stale_cache ttl_node
   \<and> IsExpired stale_cache ttl_node
   \<and> Has 0 7 stale_cache
     = Inr (False,
            stale_cache\<lparr>writeBuffer := [AddTask ttl_node, DeleteTask ttl_node],
                         stats := Some \<lparr>hits = 0, misses = 1\<rparr>\<rparr>)
   \<and> hashmap entry_cache 7 = Some entry_node \<and> IsAlive entry_cache entry_node
   \<and> \<not> IsExpired entry_cache entry_node
   \<and> unat (mask entry_cache) < length (readBuffers entry_cache)
   \<and> \<not> evictionMutex entry_cache
   \<and> Has 0 7 entry_cache
     = Inr (True,
            entry_cache\<lparr>readBuffers :=
                           lossy_New\<lparr>items := [entry_node]\<rparr> # replicate 3 lossy_New,
                         stats := Some \<lparr>hits = 1, misses = 0\<rparr>\<rparr>)"
proof -
  have a: "Has 0 7 fresh_cache = Inr (False, fresh_cache\<lparr>stats := IncMisses (stats fresh_cache)\<rparr>)"
    using Has_is_Get [of 0 7 fresh_cache] hashmap_fresh_cache [of 7] by blast
  have b: "Has 0 7 stale_cache
     = Inr (False,
            stale_cache\<lparr>writeBuffer := [AddTask ttl_node, DeleteTask ttl_node],
                         stats := Some \<lparr>hits = 0, misses = 1\<rparr>\<rparr>)"
    using Has_is_Get [of 0 7 stale_cache, THEN conjunct2, THEN conjunct2, THEN conjunct1]
      stale_cache_facts
    by (simp add: IncMisses_def)
  have add: "buffer_Add lossy_New entry_node = (None, lossy_New\<lparr>items := [entry_node]\<rparr>)"
    by (simp add: buffer_Add_def lossy_New_def)
  have r4: "replicate 4 lossy_New = (lossy_New :: (nat, int) lossy_buffer) # replicate 3 lossy_New"
    by (simp add: numeral_Bit0 numeral_Bit1)
  have c: "Has 0 7 entry_cache
     = Inr (True,
            entry_cache\<lparr>readBuffers :=
                           lossy_New\<lparr>items := [entry_node]\<rparr> # replicate 3 lossy_New,
                         stats := Some \<lparr>hits = 1, misses = 0\<rparr>\<rparr>)"
    using Has_is_Get [of 0 7 entry_cache, THEN conjunct2, THEN conjunct2, THEN conjunct2]
      entry_cache_facts(1-6)
    by (simp add: entry_cache_facts(7,8) r4 add IncHits_def)
  from a b c stale_cache_facts(1-3) entry_cache_facts(1-5) hashmap_fresh_cache [of 7]
  show ?thesis
    by blast
qed

section \<open>Unconditional Set\<close>

text \<open>
  C5. For a pair whose cost is admitted, Set and SetWithTTL return true and put the new
  node into the hash table under the key in one step of \<open>hashmap.Set\<close>. When the key had
  no node, an Add task for the new node is appended to the write queue. When a node was
  displaced, it is marked dead and an Update task (new node, displaced node) is appended.
  Nothing else changes but the node manager, which has created the new node.
\<close>

theorem Set_unconditional:
  assumes "costFunc c k v \<le> MaxAvailableCost P (trace c)"
    and "(r = Set P k v c \<and> e = defaultExpiration c) \<or>
         (r = SetWithTTL P k v d c \<and> e = getExpiration (now c) d)"
    and "n = \<lparr>nid = next_nid c, key = k, val = v, expiration = e, cost = costFunc c k v\<rparr>"
  shows "fst r \<and> hashmap (snd r) = (hashmap c)(k \<mapsto> n)
    \<and> (hashmap c k = None \<longrightarrow>
         snd r = c\<lparr>hashmap := (hashmap c)(k \<mapsto> n),
                   alive := (alive c)(nid n := True),
                   next_nid := next_nid c + 1,
                   writeBuffer := writeBuffer c @ [AddTask n]\<rparr>)
    \<and> (\<forall>old. hashmap c k = Some old \<longrightarrow>
         \<not> IsAlive (snd r) old \<and>
         snd r = c\<lparr>hashmap := (hashmap c)(k \<mapsto> n),
                   alive := (alive c)(nid n := True, nid old := False),
                   next_nid := next_nid c + 1,
                   writeBuffer := writeBuffer c @ [UpdateTask n old]\<rparr>)"
proof -
  have r: "r = set_cache P k v e False c"
    using assms(2) by (auto simp: Set_def SetWithTTL_def)
  show ?thesis
    unfolding r set_cache_admitted_unconditional [OF assms(1)] assms(3)
    by (cases "hashmap c k") (simp_all add: Let_def IsAlive_def)
qed

theorem Set_unconditional_witness:
  "costFunc fresh_cache 7 1 \<le> MaxAvailableCost idle_policies (trace fresh_cache)
   \<and> hashmap fresh_cache 7 = None
   \<and> fst (Set idle_policies 7 1 fresh_cache)
   \<and> writeBuffer (snd (Set idle_policies 7 1 fresh_cache)) = [AddTask entry_node]
   \<and> costFunc entry_cache 7 2 \<le> MaxAvailableCost idle_policies (trace entry_cache)
   \<and> hashmap entry_cache 7 = Some entry_node
   \<and> fst (SetWithTTL idle_policies 7 2 3000000000 entry_cache)
   \<and> \<not> IsAlive (snd (SetWithTTL idle_policies 7 2 3000000000 entry_cache)) entry_node
   \<and> writeBuffer (snd (SetWithTTL idle_policies 7 2 3000000000 entry_cache))
     = [AddTask entry_node,
        UpdateTask \<lparr>nid = 1, key = 7, val = 2, expiration = 3, cost = 1\<rparr> entry_node]"
proof -
  have wb0: "writeBuffer fresh_cache = []" "next_nid fresh_cache = 0"
    "defaultExpiration fresh_cache = 0" "costFunc fresh_cache 7 1 = 1"
    by (simp_all add: fresh_cache_def NewCache_def defaultExpiration_def unit_cost_config_def)
  have a: "fst (Set idle_policies 7 1 fresh_cache)
     \<and> writeBuffer (snd (Set idle_policies 7 1 fresh_cache)) = [AddTask entry_node]"
    using Set_unconditional [where c = fresh_cache and k = 7 and v = 1 and P = idle_policies
        and r = "Set idle_policies 7 1 fresh_cache" and e = 0 and d = 0 and n = entry_node]
      fresh_cache_admits [of 7 1] hashmap_fresh_cache [of 7] wb0
    by (simp add: entry_node_def)
  have adm1: "costFunc entry_cache 7 2 \<le> MaxAvailableCost idle_policies (trace entry_cache)"
    unfolding entry_cache_eq
    by (simp add: fresh_cache_def NewCache_def unit_cost_config_def idle_policies_def)
  have e1: "writeBuffer entry_cache = [AddTask entry_node]" "next_nid entry_cache = 1"
    "getExpiration (now entry_cache) 3000000000 = 3" "costFunc entry_cache 7 2 = 1"
    unfolding entry_cache_eq
    by (simp_all add: fresh_cache_def NewCache_def unit_cost_config_def getExpiration_def
        go_div_def)
  have b: "fst (SetWithTTL idle_policies 7 2 3000000000 entry_cache)
     \<and> \<not> IsAlive (snd (SetWithTTL idle_policies 7 2 3000000000 entry_cache)) entry_node
     \<and> writeBuffer (snd (SetWithTTL idle_policies 7 2 3000000000 entry_cache))
       = [AddTask entry_node,
          UpdateTask \<lparr>nid = 1, key = 7, val = 2, expiration = 3, cost = 1\<rparr> entry_node]"
    using Set_unconditional [where c = entry_cache and k = 7 and v = 2 and P = idle_policies
        and r = "SetWithTTL idle_policies 7 2 3000000000 entry_cache" and e = 3
        and d = 3000000000
        and n = "\<lparr>nid = 1, key = 7, val = 2, expiration = 3, cost = 1\<rparr>"]
      adm1 entry_cache_facts(1) e1
    by (simp add: IsAlive_def)
  from a b adm1 fresh_cache_admits [of 7 1] hashmap_fresh_cache [of 7] entry_cache_facts(1)
  show ?thesis by blast
qed

section \<open>SetIfAbsent\<close>

text \<open>
  Every node that the hash table holds is alive: each path of the code takes a node out
  of the hash table (\<open>Delete\<close>, \<open>DeleteNode\<close>, displacement by \<open>Set\<close>) before it calls
  \<open>Die\<close> on it, and nodes enter the hash table only when they are created.
\<close>

definition live_table :: "('k, 'v) cache \<Rightarrow> bool" where
  "live_table c \<longleftrightarrow> (\<forall>k n. hashmap c k = Some n \<longrightarrow> IsAlive c n)"

lemma live_table_NewCache: "live_table (NewCache roundUp clock cfg)"
  by (simp add: live_table_def NewCache_def Let_def)

lemma fresh_node_not_expired:
  "ttl c = 0 \<or> now c < now c + ttl c \<Longrightarrow> now c' = now c \<Longrightarrow>
   \<not> IsExpired c' \<lparr>nid = i, key = k, val = v, expiration = defaultExpiration c, cost = x\<rparr>"
  by (auto simp: IsExpired_def defaultExpiration_def)

text \<open>
  C6. For a pair whose cost is admitted, on a cache whose hash table holds live nodes
  only: when a live node exists for the key, SetIfAbsent and SetIfAbsentWithTTL return
  false, leave the hash table as it is and enqueue no task; otherwise they put the new
  node into the hash table, append an Add task for it to the write queue and return
  true. So, on a key without a node, \<open>SetIfAbsent(k, v)\<close> returns true, a following
  \<open>SetIfAbsent(k, v2)\<close> returns false, and a following Get returns \<open>(v, true)\<close> (Get
  on a cache whose mask indexes inside \<open>readBuffers\<close> and whose policy mutex is free,
  and with a default expiration that does not wrap around).
\<close>

theorem SetIfAbsent_cases:
  assumes "costFunc c k v \<le> MaxAvailableCost P (trace c)"
    and "(r = SetIfAbsent P k v c \<and> e = defaultExpiration c) \<or>
         (r = SetIfAbsentWithTTL P k v d c \<and> e = getExpiration (now c) d)"
    and "n = \<lparr>nid = next_nid c, key = k, val = v, expiration = e, cost = costFunc c k v\<rparr>"
    and "live_table c"
  shows "((\<exists>old. hashmap c k = Some old \<and> IsAlive c old) \<longrightarrow>
          \<not> fst r \<and>
          snd r = c\<lparr>alive := (alive c)(nid n := True), next_nid := next_nid c + 1\<rparr>)
    \<and> (\<not> (\<exists>old. hashmap c k = Some old \<and> IsAlive c old) \<longrightarrow>
          fst r \<and>
          snd r = c\<lparr>alive := (alive c)(nid n := True),
                    next_nid := next_nid c + 1,
                    hashmap := (hashmap c)(k \<mapsto> n),
                    writeBuffer := writeBuffer c @ [AddTask n]\<rparr>)
    \<and> (\<forall>v2 fastrand.
          hashmap c k = None \<and> r = SetIfAbsent P k v c \<and>
          costFunc c k v2 \<le> MaxAvailableCost P (trace c) \<and>
          (ttl c = 0 \<or> now c < now c + ttl c) \<and>
          unat (mask c) < length (readBuffers c) \<and> \<not> evictionMutex c \<longrightarrow>
          fst r \<and> \<not> fst (SetIfAbsent P k v2 (snd r)) \<and>
          (\<exists>c'. Get fastrand k (snd (SetIfAbsent P k v2 (snd r))) = Inr ((v, True), c')))"
proof -
  have r: "r = set_cache P k v e True c"
    using assms(2) by (auto simp: SetIfAbsent_def SetIfAbsentWithTTL_def)
  have live: "(\<exists>old. hashmap c k = Some old \<and> IsAlive c old) \<longleftrightarrow> hashmap c k \<noteq> None"
    using assms(4) by (auto simp: live_table_def)
  have first: "hashmap c k \<noteq> None \<longrightarrow>
      \<not> fst r \<and> snd r = c\<lparr>alive := (alive c)(nid n := True), next_nid := next_nid c + 1\<rparr>"
    unfolding r set_cache_admitted_if_absent [OF assms(1)] assms(3)
    by (auto simp: Let_def)
  have second: "hashmap c k = None \<longrightarrow>
      fst r \<and> snd r = c\<lparr>alive := (alive c)(nid n := True),
                          next_nid := next_nid c + 1,
                          hashmap := (hashmap c)(k \<mapsto> n),
                          writeBuffer := writeBuffer c @ [AddTask n]\<rparr>"
    unfolding r set_cache_admitted_if_absent [OF assms(1)] assms(3)
    by (auto simp: Let_def)
  have third: "fst r \<and> \<not> fst (SetIfAbsent P k v2 (snd r)) \<and>
          (\<exists>c'. Get fastrand k (snd (SetIfAbsent P k v2 (snd r))) = Inr ((v, True), c'))"
    if h: "hashmap c k = None \<and> r = SetIfAbsent P k v c \<and>
          costFunc c k v2 \<le> MaxAvailableCost P (trace c) \<and>
          (ttl c = 0 \<or> now c < now c + ttl c) \<and>
          unat (mask c) < length (readBuffers c) \<and> \<not> evictionMutex c"
    for v2 fastrand
  proof -
    define m where "m = \<lparr>nid = next_nid c, key = k, val = v,
      expiration = defaultExpiration c, cost = costFunc c k v\<rparr>"
    define c1 where "c1 = c\<lparr>alive := (alive c)(next_nid c := True),
                          next_nid := next_nid c + 1,
                          hashmap := (hashmap c)(k \<mapsto> m),
                          writeBuffer := writeBuffer c @ [AddTask m]\<rparr>"
    have r1: "SetIfAbsent P k v c = (True, c1)"
      using h
      by (simp add: SetIfAbsent_def set_cache_admitted_if_absent [OF assms(1)] Let_def
          c1_def m_def)
    have adm2: "costFunc c1 k v2 \<le> MaxAvailableCost P (trace c1)"
      using h by (simp add: c1_def)
    define c2 where "c2 = c1\<lparr>alive := (alive c1)(next_nid c1 := True),
                           next_nid := next_nid c1 + 1\<rparr>"
    have r2: "SetIfAbsent P k v2 c1 = (False, c2)"
      by (simp add: SetIfAbsent_def set_cache_admitted_if_absent [OF adm2] Let_def c2_def)
         (simp add: c1_def)
    have g: "hashmap c2 k = Some m" "IsAlive c2 m" "\<not> IsExpired c2 m"
      "unat (mask c2) < length (readBuffers c2)" "\<not> evictionMutex c2"
      using h
      by (simp_all add: c2_def c1_def IsAlive_def m_def fresh_node_not_expired)
    have "\<exists>c'. Get fastrand k c2 = Inr ((val m, True), c')"
      unfolding Get_hit [OF g]
      by (simp add: Let_def split: prod.splits option.splits)
    then show ?thesis
      using h by (simp add: r1 r2 m_def)
  qed
  from first second third show ?thesis
    unfolding live by blast
qed

lemma fresh_cache_facts:
  "ttl fresh_cache = 0" "unat (mask fresh_cache) < length (readBuffers fresh_cache)"
  "\<not> evictionMutex fresh_cache" "live_table fresh_cache"
  by (simp_all add: fresh_cache_def live_table_NewCache)
     (simp_all add: NewCache_def unit_cost_config_def)

lemma live_table_entry_cache: "live_table entry_cache"
  unfolding entry_cache_eq
  by (simp add: live_table_def IsAlive_def entry_node_def)

theorem SetIfAbsent_cases_witness:
  "costFunc fresh_cache 7 1 \<le> MaxAvailableCost idle_policies (trace fresh_cache)
   \<and> costFunc fresh_cache 7 2 \<le> MaxAvailableCost idle_policies (trace fresh_cache)
   \<and> live_table fresh_cache \<and> hashmap fresh_cache 7 = None
   \<and> fst (SetIfAbsent idle_policies 7 1 fresh_cache)
   \<and> \<not> fst (SetIfAbsent idle_policies 7 2 (snd (SetIfAbsent idle_policies 7 1 fresh_cache)))
   \<and> (\<exists>c'. Get 0 7 (snd (SetIfAbsent idle_policies 7 2
              (snd (SetIfAbsent idle_policies 7 1 fresh_cache)))) = Inr ((1, True), c'))
   \<and> costFunc entry_cache 7 2 \<le> MaxAvailableCost idle_policies (trace entry_cache)
   \<and> live_table entry_cache
   \<and> (\<exists>old. hashmap entry_cache 7 = Some old \<and> IsAlive entry_cache old)
   \<and> \<not> fst (SetIfAbsentWithTTL idle_policies 7 2 3000000000 entry_cache)
   \<and> writeBuffer (snd (SetIfAbsentWithTTL idle_policies 7 2 3000000000 entry_cache))
     = writeBuffer entry_cache"
proof -
  let ?r = "SetIfAbsent idle_policies 7 1 fresh_cache"
  have a: "fst ?r \<and> \<not> fst (SetIfAbsent idle_policies 7 2 (snd ?r)) \<and>
      (\<exists>c'. Get 0 7 (snd (SetIfAbsent idle_policies 7 2 (snd ?r))) = Inr ((1, True), c'))"
    using SetIfAbsent_cases [where c = fresh_cache and k = 7 and v = 1 and P = idle_policies
        and r = ?r and e = "defaultExpiration fresh_cache" and d = 0
        and n = "\<lparr>nid = next_nid fresh_cache, key = 7, val = 1,
                  expiration = defaultExpiration fresh_cache, cost = costFunc fresh_cache 7 1\<rparr>"]
      fresh_cache_admits [of 7 1] fresh_cache_admits [of 7 2] hashmap_fresh_cache [of 7]
      fresh_cache_facts
    by blast
  have adm1: "costFunc entry_cache 7 2 \<le> MaxAvailableCost idle_policies (trace entry_cache)"
    unfolding entry_cache_eq
    by (simp add: fresh_cache_def NewCache_def unit_cost_config_def idle_policies_def)
  have ex: "\<exists>old. hashmap entry_cache 7 = Some old \<and> IsAlive entry_cache old"
    using entry_cache_facts(1,2) by blast
  let ?s = "SetIfAbsentWithTTL idle_policies 7 2 3000000000 entry_cache"
  have "\<not> fst ?s \<and>
      snd ?s = entry_cache\<lparr>alive := (alive entry_cache)(next_nid entry_cache := True),
                           next_nid := next_nid entry_cache + 1\<rparr>"
    using SetIfAbsent_cases [where c = entry_cache and k = 7 and v = 2 and P = idle_policies
        and r = ?s and e = "getExpiration (now entry_cache) 3000000000" and d = 3000000000
        and n = "\<lparr>nid = next_nid entry_cache, key = 7, val = 2,
                  expiration = getExpiration (now entry_cache) 3000000000,
                  cost = costFunc entry_cache 7 2\<rparr>"]
      adm1 ex live_table_entry_cache
    by simp
  then have b: "\<not> fst ?s \<and> writeBuffer (snd ?s) = writeBuffer entry_cache"
    by simp
  from a b adm1 ex live_table_entry_cache fresh_cache_admits [of 7 1]
    fresh_cache_admits [of 7 2] hashmap_fresh_cache [of 7] fresh_cache_facts(4)
  show ?thesis by blast
qed

section \<open>The maintenance loop on Clear and Close\<close>

lemma process_control_Clear:
  "\<not> evictionMutex c \<Longrightarrow> \<not> doneClear c \<Longrightarrow>
   process_control ClearTask c =
     Inr (c\<lparr>buffer := [], writeBuffer := [], evictionMutex := False, doneClear := True,
            trace := trace c @
              [MutexLock, PolicyClear, ExpireClear, MutexUnlock, DoneClearSend]\<rparr>)"
  by (simp add: process_control_def Lock_def Unlock_def log_event_def Let_def)

lemma process_control_Close:
  "\<not> evictionMutex c \<Longrightarrow> \<not> doneClear c \<Longrightarrow>
   process_control CloseTask c =
     Inr (c\<lparr>buffer := [], writeBuffer := [], evictionMutex := False, isClosed := True,
            doneClear := True, process_exited := True,
            trace := trace c @
              [MutexLock, PolicyClear, ExpireClear, SetIsClosed, MutexUnlock,
               DoneClearSend]\<rparr>)"
  by (simp add: process_control_def Lock_def Unlock_def log_event_def Let_def)

lemma process_idle: "writeBuffer c = [] \<Longrightarrow> process P c = Inr c"
  by (subst process.simps) simp

lemma process_exited_idle: "process_exited c \<Longrightarrow> process P c = Inr c"
  by (subst process.simps) simp

lemma process_step:
  "\<not> process_exited c \<Longrightarrow> writeBuffer c = t # q \<Longrightarrow>
   process P c =
     (case process_task P t (c\<lparr>writeBuffer := q\<rparr>) of
        Inl f \<Rightarrow> Inl f
      | Inr c' \<Rightarrow> process P c')"
  by (subst process.simps) simp

lemma process_task_empty_queue:
  "writeBuffer c = [] \<Longrightarrow> process_task P t c = Inr c' \<Longrightarrow> writeBuffer c' = []"
  using process_task_writeBuffer [of P t c c'] by simp

text \<open>
  C9. When the maintenance loop takes a Clear or a Close task from the write queue (with
  the policy mutex free and no unreceived value on the done channel), it empties the
  pending batch and the write queue, and its calls on the collaborators are, in this
  order: lock the policy mutex, \<open>policy.Clear()\<close>, \<open>expirePolicy.Clear()\<close>, for Close
  only the write of the closed flag, unlock the mutex, send on the done channel. No
  \<open>policy.Write\<close> is among them: the pending batch is not applied. After a Clear the
  closed flag is as before and the loop goes on: it handles the next task that arrives.
  After a Close the loop has ended: a task that arrives later stays in the queue.
\<close>

theorem process_Clear_Close:
  assumes "\<not> evictionMutex c" and "\<not> doneClear c" and "\<not> process_exited c"
    and "writeBuffer c = t # q"
    and "cl = c\<lparr>buffer := [], writeBuffer := [], evictionMutex := False, doneClear := True,
                 trace := trace c @
                   [MutexLock, PolicyClear, ExpireClear, MutexUnlock, DoneClearSend]\<rparr>"
    and "cs = c\<lparr>buffer := [], writeBuffer := [], evictionMutex := False, isClosed := True,
                 doneClear := True, process_exited := True,
                 trace := trace c @
                   [MutexLock, PolicyClear, ExpireClear, SetIsClosed, MutexUnlock,
                    DoneClearSend]\<rparr>"
  shows "(t = ClearTask \<longrightarrow>
            process_task P t (c\<lparr>writeBuffer := q\<rparr>) = Inr cl \<and> process P c = Inr cl \<and>
            isClosed cl = isClosed c \<and> \<not> process_exited cl \<and>
            (\<forall>t2. process P (Insert t2 cl) = process_task P t2 cl))
       \<and> (t = CloseTask \<longrightarrow>
            process_task P t (c\<lparr>writeBuffer := q\<rparr>) = Inr cs \<and> process P c = Inr cs \<and>
            isClosed cs \<and> process_exited cs \<and>
            (\<forall>t2. process P (Insert t2 cs) = Inr (Insert t2 cs)))"
proof (intro conjI impI allI)
  assume t: "t = ClearTask"
  show task: "process_task P t (c\<lparr>writeBuffer := q\<rparr>) = Inr cl"
    using assms(1,2) by (simp add: t process_task_def process_control_Clear assms(5))
  have idle: "writeBuffer cl = []" "\<not> process_exited cl"
    using assms(3) by (simp_all add: assms(5))
  show "process P c = Inr cl"
    by (simp add: process_step [OF assms(3,4)] task process_idle idle)
  show "isClosed cl = isClosed c" "\<not> process_exited cl"
    using assms(3) by (simp_all add: assms(5))
  fix t2
  have "process P (Insert t2 cl) =
      (case process_task P t2 cl of Inl f \<Rightarrow> Inl f | Inr c' \<Rightarrow> process P c')"
  proof -
    have undo: "(Insert t2 cl)\<lparr>writeBuffer := []\<rparr> = cl"
      by (simp add: Insert_def assms(5))
    have "\<not> process_exited (Insert t2 cl)" "writeBuffer (Insert t2 cl) = [t2]"
      using idle by (simp_all add: Insert_def)
    then show ?thesis
      using process_step [of "Insert t2 cl" t2 "[]" P] by (simp add: undo)
  qed
  then show "process P (Insert t2 cl) = process_task P t2 cl"
    using process_task_empty_queue [OF idle(1), of P t2]
    by (auto simp: process_idle split: sum.splits)
next
  assume t: "t = CloseTask"
  show task: "process_task P t (c\<lparr>writeBuffer := q\<rparr>) = Inr cs"
    using assms(1,2) by (simp add: t process_task_def process_control_Close assms(6))
  have ex: "process_exited cs" by (simp add: assms(6))
  show "process P c = Inr cs"
    by (simp add: process_step [OF assms(3,4)] task process_exited_idle ex)
  show "isClosed cs" "process_exited cs"
    by (simp_all add: assms(6))
  fix t2
  show "process P (Insert t2 cs) = Inr (Insert t2 cs)"
    by (rule process_exited_idle) (simp add: Insert_def assms(6))
qed

text \<open>
  The cache after \<open>Set(7, 1)\<close>, once the maintenance loop has moved the Add task into
  its batch and \<open>clear\<close> has emptied the hash table and queued its task: in the first
  state a Clear task, with a Delete task queued behind it by a concurrent caller; in the
  second state a Close task.
\<close>

definition clearing_cache :: "(nat, int) cache" where
  "clearing_cache =
     entry_cache\<lparr>hashmap := Map.empty, writeBuffer := [ClearTask, DeleteTask entry_node],
                 buffer := [AddTask entry_node], i_var := 1\<rparr>"

definition closing_cache :: "(nat, int) cache" where
  "closing_cache = clearing_cache\<lparr>writeBuffer := [CloseTask]\<rparr>"

lemma clearing_cache_facts:
  "\<not> evictionMutex clearing_cache" "\<not> doneClear clearing_cache"
  "\<not> process_exited clearing_cache"
  "writeBuffer clearing_cache = [ClearTask, DeleteTask entry_node]"
  "trace clearing_cache = []" "\<not> isClosed clearing_cache"
  "buffer clearing_cache = [AddTask entry_node]"
  unfolding clearing_cache_def entry_cache_eq
  by (simp_all add: fresh_cache_def NewCache_def)

lemma closing_cache_facts:
  "\<not> evictionMutex closing_cache" "\<not> doneClear closing_cache"
  "\<not> process_exited closing_cache" "writeBuffer closing_cache = [CloseTask]"
  "trace closing_cache = []" "\<not> isClosed closing_cache"
  "buffer closing_cache = [AddTask entry_node]"
  using clearing_cache_facts by (simp_all add: closing_cache_def)

theorem process_Clear_Close_witness:
  "\<not> evictionMutex clearing_cache \<and> \<not> doneClear clearing_cache
   \<and> \<not> process_exited clearing_cache
   \<and> writeBuffer clearing_cache = [ClearTask, DeleteTask entry_node]
   \<and> buffer clearing_cache = [AddTask entry_node]
   \<and> (\<exists>c'. process idle_policies clearing_cache = Inr c' \<and> buffer c' = []
         \<and> writeBuffer c' = [] \<and> \<not> isClosed c' \<and> \<not> process_exited c'
         \<and> trace c' = [MutexLock, PolicyClear, ExpireClear, MutexUnlock, DoneClearSend])
   \<and> \<not> evictionMutex closing_cache \<and> \<not> doneClear closing_cache
   \<and> \<not> process_exited closing_cache \<and> writeBuffer closing_cache = [CloseTask]
   \<and> (\<exists>c'. process idle_policies closing_cache = Inr c' \<and> buffer c' = []
         \<and> writeBuffer c' = [] \<and> isClosed c' \<and> process_exited c'
         \<and> trace c' = [MutexLock, PolicyClear, ExpireClear, SetIsClosed, MutexUnlock,
                        DoneClearSend])"
proof -
  let ?c = clearing_cache
  let ?cl = "?c\<lparr>buffer := [], writeBuffer := [], evictionMutex := False, doneClear := True,
                 trace := trace ?c @
                   [MutexLock, PolicyClear, ExpireClear, MutexUnlock, DoneClearSend]\<rparr>"
  let ?cs = "?c\<lparr>buffer := [], writeBuffer := [], evictionMutex := False, isClosed := True,
                 doneClear := True, process_exited := True,
                 trace := trace ?c @
                   [MutexLock, PolicyClear, ExpireClear, SetIsClosed, MutexUnlock,
                    DoneClearSend]\<rparr>"
  have "process idle_policies ?c = Inr ?cl"
    using process_Clear_Close [where c = ?c and t = ClearTask
        and q = "[DeleteTask entry_node]" and cl = ?cl
        and cs = ?cs and P = idle_policies] clearing_cache_facts(1-4)
    by blast
  then have a: "\<exists>c'. process idle_policies ?c = Inr c' \<and> buffer c' = []
         \<and> writeBuffer c' = [] \<and> \<not> isClosed c' \<and> \<not> process_exited c'
         \<and> trace c' = [MutexLock, PolicyClear, ExpireClear, MutexUnlock, DoneClearSend]"
    using clearing_cache_facts by simp
  let ?d = closing_cache
  let ?dl = "?d\<lparr>buffer := [], writeBuffer := [], evictionMutex := False, doneClear := True,
                 trace := trace ?d @
                   [MutexLock, PolicyClear, ExpireClear, MutexUnlock, DoneClearSend]\<rparr>"
  let ?ds = "?d\<lparr>buffer := [], writeBuffer := [], evictionMutex := False, isClosed := True,
                 doneClear := True, process_exited := True,
                 trace := trace ?d @
                   [MutexLock, PolicyClear, ExpireClear, SetIsClosed, MutexUnlock,
                    DoneClearSend]\<rparr>"
  have "process idle_policies ?d = Inr ?ds"
    using process_Clear_Close [where c = ?d and t = CloseTask and q = "[]" and cl = ?dl
        and cs = ?ds and P = idle_policies] closing_cache_facts(1-4)
    by blast
  then have b: "\<exists>c'. process idle_policies ?d = Inr c' \<and> buffer c' = []
         \<and> writeBuffer c' = [] \<and> isClosed c' \<and> process_exited c'
         \<and> trace c' = [MutexLock, PolicyClear, ExpireClear, SetIsClosed, MutexUnlock,
                        DoneClearSend]"
    using closing_cache_facts by simp
  from a b clearing_cache_facts closing_cache_facts show ?thesis
    by blast
qed

section \<open>Close\<close>

lemma expire_task_trace: "\<exists>tr. expire_task t c = c\<lparr>trace := trace c @ tr\<rparr>"
proof (cases t)
  case (AddTask n)
  have "expire_task t c = c\<lparr>trace := trace c @ (if IsAlive c n then [ExpireAdd n] else [])\<rparr>"
    by (simp add: AddTask log_event_def)
  then show ?thesis by blast
next
  case (UpdateTask n old)
  have "expire_task t c = c\<lparr>trace := trace c @
      (if IsAlive c n then [ExpireDelete old, ExpireAdd n] else [ExpireDelete old])\<rparr>"
    by (simp add: UpdateTask log_event_def Let_def IsAlive_def)
  then show ?thesis by blast
next
  case (DeleteTask n)
  have "expire_task t c = c\<lparr>trace := trace c @ [ExpireDelete n]\<rparr>"
    by (simp add: DeleteTask log_event_def)
  then show ?thesis by blast
next
  case ClearTask
  then have "expire_task t c = c\<lparr>trace := trace c @ []\<rparr>" by simp
  then show ?thesis by blast
next
  case CloseTask
  then have "expire_task t c = c\<lparr>trace := trace c @ []\<rparr>" by simp
  then show ?thesis by blast
qed

lemma fold_expire_task_trace: "\<exists>tr. fold expire_task ts c = c\<lparr>trace := trace c @ tr\<rparr>"
proof (induction ts arbitrary: c)
  case Nil
  have "fold expire_task [] c = c\<lparr>trace := trace c @ []\<rparr>" by simp
  then show ?case by blast
next
  case (Cons t ts)
  obtain tr1 where 1: "expire_task t c = c\<lparr>trace := trace c @ tr1\<rparr>"
    using expire_task_trace by blast
  obtain tr2 where 2: "fold expire_task ts (expire_task t c)
      = (expire_task t c)\<lparr>trace := trace (expire_task t c) @ tr2\<rparr>"
    using Cons.IH by blast
  have "fold expire_task (t # ts) c = c\<lparr>trace := trace c @ (tr1 @ tr2)\<rparr>"
    using 2 by (simp add: 1)
  then show ?case by blast
qed

lemma fold_log_trace:
  "fold (\<lambda>n. log_event (f n)) ns c = c\<lparr>trace := trace c @ map f ns\<rparr>"
  by (induction ns arbitrary: c) (simp_all add: log_event_def)

lemma delete_and_die_empty:
  "hashmap c = Map.empty \<Longrightarrow> delete_and_die n c = c\<lparr>alive := (alive c)(nid n := False)\<rparr>"
  by (simp add: delete_and_die_def hashmap_DeleteNode_def Die_def)

lemma fold_delete_and_die_empty:
  "hashmap c = Map.empty \<Longrightarrow> \<exists>a. fold delete_and_die ns c = c\<lparr>alive := a\<rparr>"
proof (induction ns arbitrary: c)
  case Nil
  have "fold delete_and_die [] c = c\<lparr>alive := alive c\<rparr>" by simp
  then show ?case by blast
next
  case (Cons n ns)
  let ?c1 = "c\<lparr>alive := (alive c)(nid n := False)\<rparr>"
  have "hashmap ?c1 = Map.empty" using Cons.prems by simp
  then obtain a where "fold delete_and_die ns ?c1 = ?c1\<lparr>alive := a\<rparr>"
    using Cons.IH by blast
  then have "fold delete_and_die (n # ns) c = c\<lparr>alive := a\<rparr>"
    by (simp add: delete_and_die_empty [OF Cons.prems])
  then show ?case by blast
qed

lemma process_batch_empty:
  assumes "\<not> evictionMutex c" and "hashmap c = Map.empty"
  shows "\<exists>tr a. process_batch P c =
     Inr (c\<lparr>trace := trace c @ tr, alive := a, buffer := [], evictionMutex := False\<rparr>)"
proof -
  let ?c1 = "c\<lparr>evictionMutex := True, trace := trace c @ [MutexLock]\<rparr>"
  have lock: "Lock c = Inr ?c1"
    using assms(1) by (simp add: Lock_def log_event_def)
  obtain tr where c2: "fold expire_task (buffer c) ?c1 = ?c1\<lparr>trace := trace ?c1 @ tr\<rparr>"
    using fold_expire_task_trace by blast
  let ?c2 = "?c1\<lparr>trace := trace ?c1 @ tr\<rparr>"
  let ?d = "Write P (trace ?c2) (buffer ?c2)"
  let ?c5 = "c\<lparr>evictionMutex := False,
              trace := trace c @ [MutexLock] @ tr @ [PolicyWrite (buffer c)]
                @ map ExpireDelete ?d @ [MutexUnlock]\<rparr>"
  have "hashmap ?c5 = Map.empty" using assms(2) by simp
  then obtain a where c6: "fold delete_and_die ?d ?c5 = ?c5\<lparr>alive := a\<rparr>"
    using fold_delete_and_die_empty by blast
  have "process_batch P c = Inr (c\<lparr>trace := trace c @ ([MutexLock] @ tr @
      [PolicyWrite (buffer c)] @ map ExpireDelete ?d @ [MutexUnlock]), alive := a,
      buffer := [], evictionMutex := False\<rparr>)"
    using c6
    by (simp add: process_batch_def lock c2 Let_def fold_log_trace Unlock_def log_event_def)
  then show ?thesis by blast
qed

lemma process_task_data:
  assumes "\<not> IsClear t" and "\<not> IsClose t" and "\<not> evictionMutex c"
    and "hashmap c = Map.empty"
  shows "\<exists>tr a b j. process_task P t c =
     Inr (c\<lparr>trace := trace c @ tr, alive := a, buffer := b, i_var := j,
            evictionMutex := False\<rparr>)"
proof (cases "i_var c + 1 \<ge> bufferCapacity")
  case True
  let ?c1 = "c\<lparr>buffer := buffer c @ [t], i_var := i_var c + 1 - bufferCapacity\<rparr>"
  have "\<not> evictionMutex ?c1" "hashmap ?c1 = Map.empty"
    using assms(3,4) by simp_all
  then obtain tr a where "process_batch P ?c1 =
     Inr (?c1\<lparr>trace := trace ?c1 @ tr, alive := a, buffer := [], evictionMutex := False\<rparr>)"
    using process_batch_empty by blast
  then have "process_task P t c =
     Inr (c\<lparr>trace := trace c @ tr, alive := a, buffer := [],
            i_var := i_var c + 1 - bufferCapacity, evictionMutex := False\<rparr>)"
    using True assms(1,2) by (simp add: process_task_def Let_def)
  then show ?thesis by blast
next
  case False
  then have "process_task P t c =
     Inr (c\<lparr>trace := trace c @ [], alive := alive c, buffer := buffer c @ [t],
            i_var := i_var c + 1, evictionMutex := False\<rparr>)"
    using assms(1-3) by (simp add: process_task_def Let_def)
  then show ?thesis by blast
qed

lemma process_drains:
  assumes "\<forall>x \<in> set q. \<not> IsClear x \<and> \<not> IsClose x" and "IsClear t \<or> IsClose t"
    and "writeBuffer c = q @ t # q'" and "\<not> evictionMutex c" and "\<not> doneClear c"
    and "\<not> process_exited c" and "hashmap c = Map.empty"
  shows "\<exists>tr a j. process P c =
     Inr (c\<lparr>writeBuffer := [], buffer := [], alive := a, i_var := j,
            evictionMutex := False, isClosed := (isClosed c \<or> IsClose t),
            doneClear := True, process_exited := IsClose t,
            trace := trace c @ tr @ [MutexLock, PolicyClear, ExpireClear]
              @ (if IsClose t then [SetIsClosed] else []) @ [MutexUnlock, DoneClearSend]\<rparr>)"
  using assms
proof (induction q arbitrary: c)
  case Nil
  let ?c0 = "c\<lparr>writeBuffer := q'\<rparr>"
  have wb: "writeBuffer c = t # q'" using Nil.prems(3) by simp
  have pre: "\<not> evictionMutex ?c0" "\<not> doneClear ?c0"
    using Nil.prems(4,5) by simp_all
  have step: "process P c =
     (case process_task P t ?c0 of Inl f \<Rightarrow> Inl f | Inr c' \<Rightarrow> process P c')"
    by (rule process_step [OF Nil.prems(6) wb])
  from Nil.prems(2) consider "t = ClearTask" | "t = CloseTask"
    by (cases t) simp_all
  then have "process P c =
     Inr (c\<lparr>writeBuffer := [], buffer := [], alive := alive c, i_var := i_var c,
            evictionMutex := False, isClosed := (isClosed c \<or> IsClose t),
            doneClear := True, process_exited := IsClose t,
            trace := trace c @ [] @ [MutexLock, PolicyClear, ExpireClear]
              @ (if IsClose t then [SetIsClosed] else []) @ [MutexUnlock, DoneClearSend]\<rparr>)"
  proof cases
    case 1
    then show ?thesis
      using Nil.prems(6)
      by (simp add: step process_task_def process_control_Clear [OF pre] process_idle)
  next
    case 2
    then show ?thesis
      by (simp add: step process_task_def process_control_Close [OF pre]
          process_exited_idle)
  qed
  then show ?case by blast
next
  case (Cons t0 q)
  let ?c0 = "c\<lparr>writeBuffer := q @ t # q'\<rparr>"
  have wb: "writeBuffer c = t0 # (q @ t # q')" using Cons.prems(3) by simp
  have data: "\<not> IsClear t0" "\<not> IsClose t0" using Cons.prems(1) by simp_all
  have pre: "\<not> evictionMutex ?c0" "hashmap ?c0 = Map.empty"
    using Cons.prems(4,7) by simp_all
  obtain tr a b j where task: "process_task P t0 ?c0 =
     Inr (?c0\<lparr>trace := trace ?c0 @ tr, alive := a, buffer := b, i_var := j,
              evictionMutex := False\<rparr>)"
    using process_task_data [OF data pre] by blast
  let ?c1 = "?c0\<lparr>trace := trace ?c0 @ tr, alive := a, buffer := b, i_var := j,
              evictionMutex := False\<rparr>"
  have step: "process P c = process P ?c1"
    by (simp add: process_step [OF Cons.prems(6) wb] task)
  have "\<forall>x \<in> set q. \<not> IsClear x \<and> \<not> IsClose x" using Cons.prems(1) by simp
  moreover have "writeBuffer ?c1 = q @ t # q'" by simp
  moreover have "\<not> evictionMutex ?c1" "\<not> doneClear ?c1" "\<not> process_exited ?c1"
    "hashmap ?c1 = Map.empty"
    using Cons.prems(5,6,7) by simp_all
  ultimately obtain tr' a' j' where "process P ?c1 =
     Inr (?c1\<lparr>writeBuffer := [], buffer := [], alive := a', i_var := j',
            evictionMutex := False, isClosed := (isClosed ?c1 \<or> IsClose t),
            doneClear := True, process_exited := IsClose t,
            trace := trace ?c1 @ tr' @ [MutexLock, PolicyClear, ExpireClear]
              @ (if IsClose t then [SetIsClosed] else []) @ [MutexUnlock, DoneClearSend]\<rparr>)"
    using Cons.IH [OF _ Cons.prems(2), of ?c1] by blast
  then have "process P c =
     Inr (c\<lparr>writeBuffer := [], buffer := [], alive := a', i_var := j',
            evictionMutex := False, isClosed := (isClosed c \<or> IsClose t),
            doneClear := True, process_exited := IsClose t,
            trace := trace c @ (tr @ tr') @ [MutexLock, PolicyClear, ExpireClear]
              @ (if IsClose t then [SetIsClosed] else []) @ [MutexUnlock, DoneClearSend]\<rparr>)"
    by (simp add: step)
  then show ?case by blast
qed

lemma clear_drains:
  assumes "\<forall>x \<in> set (writeBuffer c). \<not> IsClear x \<and> \<not> IsClose x"
    and "IsClear t \<or> IsClose t"
    and "\<not> evictionMutex c" and "\<not> doneClear c" and "\<not> process_exited c"
  shows "\<exists>tr a j. clear P t c =
     Inr (c\<lparr>hashmap := Map.empty, readBuffers := map buffer_Clear (readBuffers c),
            writeBuffer := [], buffer := [], alive := a, i_var := j,
            evictionMutex := False, isClosed := (isClosed c \<or> IsClose t),
            doneClear := False, process_exited := IsClose t,
            stats := stats_Clear (stats c),
            trace := trace c @ tr @ [MutexLock, PolicyClear, ExpireClear]
              @ (if IsClose t then [SetIsClosed] else [])
              @ [MutexUnlock, DoneClearSend, DoneClearRecv]\<rparr>)"
proof -
  let ?c3 = "c\<lparr>hashmap := Map.empty, readBuffers := map buffer_Clear (readBuffers c),
               writeBuffer := writeBuffer c @ [t]\<rparr>"
  have "writeBuffer ?c3 = writeBuffer c @ t # []" "\<not> evictionMutex ?c3" "\<not> doneClear ?c3"
    "\<not> process_exited ?c3" "hashmap ?c3 = Map.empty"
    using assms(3-5) by simp_all
  from process_drains [OF assms(1,2) this, of P]
  obtain tr a j where p: "process P ?c3 =
     Inr (?c3\<lparr>writeBuffer := [], buffer := [], alive := a, i_var := j,
            evictionMutex := False, isClosed := (isClosed ?c3 \<or> IsClose t),
            doneClear := True, process_exited := IsClose t,
            trace := trace ?c3 @ tr @ [MutexLock, PolicyClear, ExpireClear]
              @ (if IsClose t then [SetIsClosed] else []) @ [MutexUnlock, DoneClearSend]\<rparr>)"
    by blast
  have "clear P t c =
     Inr (c\<lparr>hashmap := Map.empty, readBuffers := map buffer_Clear (readBuffers c),
            writeBuffer := [], buffer := [], alive := a, i_var := j,
            evictionMutex := False, isClosed := (isClosed c \<or> IsClose t),
            doneClear := False, process_exited := IsClose t,
            stats := stats_Clear (stats c),
            trace := trace c @ tr @ [MutexLock, PolicyClear, ExpireClear]
              @ (if IsClose t then [SetIsClosed] else [])
              @ [MutexUnlock, DoneClearSend, DoneClearRecv]\<rparr>)"
    by (simp add: clear_def hashmap_Clear_def Insert_def Let_def p log_event_def)
  then show ?thesis by blast
qed

text \<open>
  C8. A Close whose \<open>sync.Once\<close> has not run yet, on a running cache (maintenance loop
  alive, policy mutex free, nothing unreceived on the done channel, no Clear or Close
  task in the write queue), returns after it has cleared the hash table and the read
  buffers, queued a Close task, received the acknowledgment that the maintenance loop
  sends when it has emptied the queue and cleared the policies, and cleared the
  statistics; it then stops the clock exactly when expiration was enabled. Whatever the
  state, a Close that follows a Close that has returned changes nothing: it returns the
  state as it is, trace included.
\<close>

theorem Close_idempotent:
  "(\<forall>c'. Close P c = Inr c' \<longrightarrow> closeOnce c' \<and> Close P c' = Inr c')
   \<and> (\<not> closeOnce c \<and> \<not> process_exited c \<and> \<not> evictionMutex c \<and> \<not> doneClear c \<and>
       (\<forall>x \<in> set (writeBuffer c). \<not> IsClear x \<and> \<not> IsClose x) \<longrightarrow>
       (\<exists>tr a j. Close P c =
          Inr (c\<lparr>hashmap := Map.empty, readBuffers := map buffer_Clear (readBuffers c),
                 writeBuffer := [], buffer := [], alive := a, i_var := j,
                 evictionMutex := False, isClosed := True, doneClear := False,
                 process_exited := True, stats := stats_Clear (stats c),
                 closeOnce := True,
                 trace := trace c @ tr
                   @ [MutexLock, PolicyClear, ExpireClear, SetIsClosed, MutexUnlock,
                      DoneClearSend, DoneClearRecv]
                   @ (if withExpiration c then [UnixtimeStop] else [])\<rparr>)))"
proof (intro conjI allI impI)
  fix c'
  assume "Close P c = Inr c'"
  then show "closeOnce c'"
    by (auto simp: Close_def Let_def split: if_splits sum.splits)
  then show "Close P c' = Inr c'"
    by (simp add: Close_def)
next
  assume h: "\<not> closeOnce c \<and> \<not> process_exited c \<and> \<not> evictionMutex c \<and> \<not> doneClear c \<and>
       (\<forall>x \<in> set (writeBuffer c). \<not> IsClear x \<and> \<not> IsClose x)"
  then obtain tr a j where cl: "clear P CloseTask c =
     Inr (c\<lparr>hashmap := Map.empty, readBuffers := map buffer_Clear (readBuffers c),
            writeBuffer := [], buffer := [], alive := a, i_var := j,
            evictionMutex := False, isClosed := (isClosed c \<or> IsClose CloseTask),
            doneClear := False, process_exited := IsClose CloseTask,
            stats := stats_Clear (stats c),
            trace := trace c @ tr @ [MutexLock, PolicyClear, ExpireClear]
              @ (if IsClose CloseTask then [SetIsClosed] else [])
              @ [MutexUnlock, DoneClearSend, DoneClearRecv]\<rparr>)"
    using clear_drains [of c CloseTask P] by auto
  have "Close P c =
          Inr (c\<lparr>hashmap := Map.empty, readBuffers := map buffer_Clear (readBuffers c),
                 writeBuffer := [], buffer := [], alive := a, i_var := j,
                 evictionMutex := False, isClosed := True, doneClear := False,
                 process_exited := True, stats := stats_Clear (stats c),
                 closeOnce := True,
                 trace := trace c @ tr
                   @ [MutexLock, PolicyClear, ExpireClear, SetIsClosed, MutexUnlock,
                      DoneClearSend, DoneClearRecv]
                   @ (if withExpiration c then [UnixtimeStop] else [])\<rparr>)"
    using h by (simp add: Close_def cl Let_def log_event_def)
  then show "\<exists>tr a j. Close P c =
          Inr (c\<lparr>hashmap := Map.empty, readBuffers := map buffer_Clear (readBuffers c),
                 writeBuffer := [], buffer := [], alive := a, i_var := j,
                 evictionMutex := False, isClosed := True, doneClear := False,
                 process_exited := True, stats := stats_Clear (stats c),
                 closeOnce := True,
                 trace := trace c @ tr
                   @ [MutexLock, PolicyClear, ExpireClear, SetIsClosed, MutexUnlock,
                      DoneClearSend, DoneClearRecv]
                   @ (if withExpiration c then [UnixtimeStop] else [])\<rparr>)"
    by blast
qed

lemma entry_cache_running:
  "\<not> closeOnce entry_cache" "\<not> process_exited entry_cache" "\<not> doneClear entry_cache"
  "writeBuffer entry_cache = [AddTask entry_node]" "\<not> withExpiration entry_cache"
  "trace entry_cache = []"
  unfolding entry_cache_eq
  by (simp_all add: fresh_cache_def NewCache_def unit_cost_config_def)

theorem Close_idempotent_witness:
  "\<not> closeOnce entry_cache \<and> \<not> process_exited entry_cache \<and> \<not> evictionMutex entry_cache
   \<and> \<not> doneClear entry_cache
   \<and> writeBuffer entry_cache = [AddTask entry_node]
   \<and> (\<exists>c'. Close idle_policies entry_cache = Inr c' \<and> closeOnce c' \<and> isClosed c'
         \<and> process_exited c' \<and> hashmap c' 7 = None \<and> writeBuffer c' = []
         \<and> stats c' = Some \<lparr>hits = 0, misses = 0\<rparr>
         \<and> (\<exists>tr. trace c' = tr @ [MutexLock, PolicyClear, ExpireClear, SetIsClosed,
                                   MutexUnlock, DoneClearSend, DoneClearRecv])
         \<and> Close idle_policies c' = Inr c')"
proof -
  have pre: "\<not> closeOnce entry_cache \<and> \<not> process_exited entry_cache \<and>
      \<not> evictionMutex entry_cache \<and> \<not> doneClear entry_cache \<and>
      (\<forall>x \<in> set (writeBuffer entry_cache). \<not> IsClear x \<and> \<not> IsClose x)"
    using entry_cache_running entry_cache_facts(5) by simp
  note T = Close_idempotent [of idle_policies entry_cache]
  from pre T obtain tr a j where first: "Close idle_policies entry_cache =
      Inr (entry_cache\<lparr>hashmap := Map.empty,
             readBuffers := map buffer_Clear (readBuffers entry_cache),
             writeBuffer := [], buffer := [], alive := a, i_var := j,
             evictionMutex := False, isClosed := True, doneClear := False,
             process_exited := True, stats := stats_Clear (stats entry_cache),
             closeOnce := True,
             trace := trace entry_cache @ tr
               @ [MutexLock, PolicyClear, ExpireClear, SetIsClosed, MutexUnlock,
                  DoneClearSend, DoneClearRecv]
               @ (if withExpiration entry_cache then [UnixtimeStop] else [])\<rparr>)"
    by blast
  let ?c' = "entry_cache\<lparr>hashmap := Map.empty,
             readBuffers := map buffer_Clear (readBuffers entry_cache),
             writeBuffer := [], buffer := [], alive := a, i_var := j,
             evictionMutex := False, isClosed := True, doneClear := False,
             process_exited := True, stats := stats_Clear (stats entry_cache),
             closeOnce := True,
             trace := trace entry_cache @ tr
               @ [MutexLock, PolicyClear, ExpireClear, SetIsClosed, MutexUnlock,
                  DoneClearSend, DoneClearRecv]
               @ (if withExpiration entry_cache then [UnixtimeStop] else [])\<rparr>"
  from first T have second: "Close idle_policies ?c' = Inr ?c'"
    by blast
  have "closeOnce ?c' \<and> isClosed ?c' \<and> process_exited ?c' \<and> hashmap ?c' 7 = None
      \<and> writeBuffer ?c' = [] \<and> stats ?c' = Some \<lparr>hits = 0, misses = 0\<rparr>
      \<and> (\<exists>tr. trace ?c' = tr @ [MutexLock, PolicyClear, ExpireClear, SetIsClosed,
                                   MutexUnlock, DoneClearSend, DoneClearRecv])"
    by (simp add: entry_cache_running entry_cache_facts(6) stats_Clear_def)
  with first second pre entry_cache_running(4) show ?thesis
    by blast
qed

section \<open>The size of the batches given to the eviction policy\<close>

text \<open>The batches passed to \<open>policy.Write\<close>, in the order of the calls.\<close>

fun write_batches :: "('k, 'v) event list \<Rightarrow> ('k, 'v) task list list" where
  "write_batches [] = []"
| "write_batches (PolicyWrite b # es) = b # write_batches es"
| "write_batches (_ # es) = write_batches es"

text \<open>\<open>Set(k, v)\<close> for each key of a list, one call after the other.\<close>

fun Set_keys ::
  "('k, 'v) policies \<Rightarrow> 'k list \<Rightarrow> 'v \<Rightarrow> ('k, 'v) cache \<Rightarrow> ('k, 'v) cache"
where
  "Set_keys P [] v c = c"
| "Set_keys P (k # ks) v c = Set_keys P ks v (snd (Set P k v c))"

text \<open>
  63 calls of Set on a fresh cache; the maintenance loop takes the 63 tasks; Clear; one
  more Set; the maintenance loop takes its task.
\<close>

definition clear_then_set :: "fault + (nat, int) cache" where
  "clear_then_set =
     (case process idle_policies (Set_keys idle_policies [0..<63] 1 fresh_cache) of
        Inl f \<Rightarrow> Inl f
      | Inr c2 \<Rightarrow>
          (case Clear idle_policies c2 of
             Inl f \<Rightarrow> Inl f
           | Inr c3 \<Rightarrow> process idle_policies (snd (Set idle_policies 100 1 c3))))"

lemma write_batches_append:
  "write_batches (xs @ ys) = write_batches xs @ write_batches ys"
  by (induction xs rule: write_batches.induct) simp_all

lemma write_batches_ExpireDelete: "write_batches (map ExpireDelete ns) = []"
  by (induction ns) simp_all

lemma expire_task_no_write:
  "\<exists>tr. expire_task t c = c\<lparr>trace := trace c @ tr\<rparr> \<and> write_batches tr = []"
proof (cases t)
  case (AddTask n)
  have "expire_task t c = c\<lparr>trace := trace c @ (if IsAlive c n then [ExpireAdd n] else [])\<rparr>"
    by (simp add: AddTask log_event_def)
  moreover have "write_batches (if IsAlive c n then [ExpireAdd n] else []) = []"
    by simp
  ultimately show ?thesis by blast
next
  case (UpdateTask n old)
  have "expire_task t c = c\<lparr>trace := trace c @
      (if IsAlive c n then [ExpireDelete old, ExpireAdd n] else [ExpireDelete old])\<rparr>"
    by (simp add: UpdateTask log_event_def Let_def IsAlive_def)
  moreover have "write_batches
      (if IsAlive c n then [ExpireDelete old, ExpireAdd n] else [ExpireDelete old]) = []"
    by simp
  ultimately show ?thesis by blast
next
  case (DeleteTask n)
  have "expire_task t c = c\<lparr>trace := trace c @ [ExpireDelete n]\<rparr>"
    by (simp add: DeleteTask log_event_def)
  moreover have "write_batches [ExpireDelete n] = []" by simp
  ultimately show ?thesis by blast
next
  case ClearTask
  then have "expire_task t c = c\<lparr>trace := trace c @ []\<rparr>" by simp
  moreover have "write_batches ([] :: ('a, 'b) event list) = []" by simp
  ultimately show ?thesis by blast
next
  case CloseTask
  then have "expire_task t c = c\<lparr>trace := trace c @ []\<rparr>" by simp
  moreover have "write_batches ([] :: ('a, 'b) event list) = []" by simp
  ultimately show ?thesis by blast
qed

lemma fold_expire_task_no_write:
  "\<exists>tr. fold expire_task ts c = c\<lparr>trace := trace c @ tr\<rparr> \<and> write_batches tr = []"
proof (induction ts arbitrary: c)
  case Nil
  have "fold expire_task [] c = c\<lparr>trace := trace c @ []\<rparr>" by simp
  moreover have "write_batches ([] :: ('a, 'b) event list) = []" by simp
  ultimately show ?case by blast
next
  case (Cons t ts)
  obtain tr1 where 1: "expire_task t c = c\<lparr>trace := trace c @ tr1\<rparr>" "write_batches tr1 = []"
    using expire_task_no_write by blast
  obtain tr2 where 2: "fold expire_task ts (expire_task t c)
      = (expire_task t c)\<lparr>trace := trace (expire_task t c) @ tr2\<rparr>" "write_batches tr2 = []"
    using Cons.IH by blast
  have "fold expire_task (t # ts) c = c\<lparr>trace := trace c @ (tr1 @ tr2)\<rparr>"
    using 2(1) by (simp add: 1(1))
  moreover have "write_batches (tr1 @ tr2) = []"
    by (simp add: write_batches_append 1(2) 2(2))
  ultimately show ?case by blast
qed

lemma delete_and_die_frame:
  "\<exists>h a. delete_and_die n c = c\<lparr>hashmap := h, alive := a\<rparr>"
proof -
  have "delete_and_die n c =
      c\<lparr>hashmap := hashmap (snd (hashmap_DeleteNode n c)), alive := (alive c)(nid n := False)\<rparr>"
    by (simp add: delete_and_die_def hashmap_DeleteNode_def Die_def split: option.splits)
  then show ?thesis by blast
qed

lemma fold_delete_and_die_frame:
  "\<exists>h a. fold delete_and_die ns c = c\<lparr>hashmap := h, alive := a\<rparr>"
proof (induction ns arbitrary: c)
  case Nil
  have "fold delete_and_die [] c = c\<lparr>hashmap := hashmap c, alive := alive c\<rparr>" by simp
  then show ?case by blast
next
  case (Cons n ns)
  obtain h1 a1 where 1: "delete_and_die n c = c\<lparr>hashmap := h1, alive := a1\<rparr>"
    using delete_and_die_frame by blast
  obtain h2 a2 where 2: "fold delete_and_die ns (c\<lparr>hashmap := h1, alive := a1\<rparr>)
      = c\<lparr>hashmap := h1, alive := a1\<rparr>\<lparr>hashmap := h2, alive := a2\<rparr>"
    using Cons.IH by blast
  have "fold delete_and_die (n # ns) c = c\<lparr>hashmap := h2, alive := a2\<rparr>"
    using 2 by (simp add: 1)
  then show ?case by blast
qed

text \<open>
  What one application of a batch does: it passes the pending batch, whatever its length,
  to \<open>policy.Write\<close> and empties it.
\<close>

lemma process_batch_writes:
  assumes "\<not> evictionMutex c"
  shows "\<exists>tr h a. process_batch P c =
     Inr (c\<lparr>trace := trace c @ tr, hashmap := h, alive := a, buffer := [],
            evictionMutex := False\<rparr>) \<and> write_batches tr = [buffer c]"
proof -
  let ?c1 = "c\<lparr>evictionMutex := True, trace := trace c @ [MutexLock]\<rparr>"
  have lock: "Lock c = Inr ?c1"
    using assms(1) by (simp add: Lock_def log_event_def)
  obtain tr where c2: "fold expire_task (buffer c) ?c1 = ?c1\<lparr>trace := trace ?c1 @ tr\<rparr>"
    and tr: "write_batches tr = []"
    using fold_expire_task_no_write by blast
  let ?c2 = "?c1\<lparr>trace := trace ?c1 @ tr\<rparr>"
  let ?d = "Write P (trace ?c2) (buffer ?c2)"
  let ?tr = "[MutexLock] @ tr @ [PolicyWrite (buffer c)] @ map ExpireDelete ?d @ [MutexUnlock]"
  let ?c5 = "c\<lparr>evictionMutex := False, trace := trace c @ ?tr\<rparr>"
  obtain h a where c6: "fold delete_and_die ?d ?c5 = ?c5\<lparr>hashmap := h, alive := a\<rparr>"
    using fold_delete_and_die_frame by blast
  have "process_batch P c = Inr (c\<lparr>trace := trace c @ ?tr, hashmap := h, alive := a,
      buffer := [], evictionMutex := False\<rparr>)"
    using c6
    by (simp add: process_batch_def lock c2 Let_def fold_log_trace Unlock_def log_event_def)
  moreover have "write_batches ?tr = [buffer c]"
    by (simp add: write_batches_append tr write_batches_ExpireDelete)
  ultimately show ?thesis by blast
qed

lemma process_task_below_capacity:
  "\<not> IsClear t \<Longrightarrow> \<not> IsClose t \<Longrightarrow> i_var c + 1 < bufferCapacity \<Longrightarrow>
   process_task P t c = Inr (c\<lparr>buffer := buffer c @ [t], i_var := i_var c + 1\<rparr>)"
  by (simp add: process_task_def Let_def)

lemma process_task_at_capacity:
  assumes "\<not> IsClear t" and "\<not> IsClose t" and "bufferCapacity \<le> i_var c + 1"
    and "\<not> evictionMutex c"
  shows "\<exists>tr h a. process_task P t c =
     Inr (c\<lparr>trace := trace c @ tr, hashmap := h, alive := a, buffer := [],
            i_var := i_var c + 1 - bufferCapacity, evictionMutex := False\<rparr>)
     \<and> write_batches tr = [buffer c @ [t]]"
proof -
  let ?c1 = "c\<lparr>buffer := buffer c @ [t], i_var := i_var c + 1 - bufferCapacity\<rparr>"
  have "\<not> evictionMutex ?c1" using assms(4) by simp
  from process_batch_writes [OF this, of P]
  obtain tr h a where "process_batch P ?c1 =
     Inr (?c1\<lparr>trace := trace ?c1 @ tr, hashmap := h, alive := a, buffer := [],
            evictionMutex := False\<rparr>)" and "write_batches tr = [buffer ?c1]"
    by blast
  then have "process_task P t c =
     Inr (c\<lparr>trace := trace c @ tr, hashmap := h, alive := a, buffer := [],
            i_var := i_var c + 1 - bufferCapacity, evictionMutex := False\<rparr>)
     \<and> write_batches tr = [buffer c @ [t]]"
    using assms(1-3) by (simp add: process_task_def Let_def)
  then show ?thesis by blast
qed

lemma process_below_capacity:
  assumes "\<forall>x \<in> set ts. \<not> IsClear x \<and> \<not> IsClose x" and "writeBuffer c = ts"
    and "i_var c + int (length ts) < bufferCapacity" and "\<not> process_exited c"
  shows "process P c =
     Inr (c\<lparr>writeBuffer := [], buffer := buffer c @ ts,
            i_var := i_var c + int (length ts)\<rparr>)"
  using assms
proof (induction ts arbitrary: c)
  case Nil
  then show ?case by (simp add: process_idle)
next
  case (Cons t ts)
  let ?c0 = "c\<lparr>writeBuffer := ts\<rparr>"
  let ?c1 = "?c0\<lparr>buffer := buffer c @ [t], i_var := i_var c + 1\<rparr>"
  have task: "process_task P t ?c0 = Inr ?c1"
    using Cons.prems(1,3) process_task_below_capacity [of t ?c0 P] by simp
  have "process P ?c1 =
     Inr (?c1\<lparr>writeBuffer := [], buffer := buffer ?c1 @ ts,
              i_var := i_var ?c1 + int (length ts)\<rparr>)"
    using Cons.prems by (intro Cons.IH) simp_all
  then show ?case
    using Cons.prems(2,4) by (simp add: process_step [of c t ts P] task)
qed

lemma Set_queue:
  assumes "costFunc c k v \<le> MaxAvailableCost P (trace c)"
  shows "\<exists>h a t. Set P k v c =
     (True, c\<lparr>hashmap := h, alive := a, next_nid := next_nid c + 1,
              writeBuffer := writeBuffer c @ [t]\<rparr>) \<and> \<not> IsClear t \<and> \<not> IsClose t"
proof (cases "hashmap c k")
  case None
  let ?n = "\<lparr>nid = next_nid c, key = k, val = v, expiration = defaultExpiration c,
             cost = costFunc c k v\<rparr>"
  have "Set P k v c =
     (True, c\<lparr>hashmap := (hashmap c)(k \<mapsto> ?n), alive := (alive c)(next_nid c := True),
              next_nid := next_nid c + 1, writeBuffer := writeBuffer c @ [AddTask ?n]\<rparr>)
     \<and> \<not> IsClear (AddTask ?n) \<and> \<not> IsClose (AddTask ?n)"
    by (simp add: Set_def set_cache_admitted_unconditional [OF assms] None Let_def)
  then show ?thesis by blast
next
  case (Some old)
  let ?n = "\<lparr>nid = next_nid c, key = k, val = v, expiration = defaultExpiration c,
             cost = costFunc c k v\<rparr>"
  have "Set P k v c =
     (True, c\<lparr>hashmap := (hashmap c)(k \<mapsto> ?n),
              alive := (alive c)(next_nid c := True, nid old := False),
              next_nid := next_nid c + 1,
              writeBuffer := writeBuffer c @ [UpdateTask ?n old]\<rparr>)
     \<and> \<not> IsClear (UpdateTask ?n old) \<and> \<not> IsClose (UpdateTask ?n old)"
    by (simp add: Set_def set_cache_admitted_unconditional [OF assms] Some Let_def)
  then show ?thesis by blast
qed

lemma Set_keys_queue:
  assumes "\<forall>k. costFunc c k v \<le> MaxAvailableCost P (trace c)"
  shows "\<exists>h a n ts. Set_keys P ks v c =
     c\<lparr>hashmap := h, alive := a, next_nid := n, writeBuffer := writeBuffer c @ ts\<rparr>
     \<and> length ts = length ks \<and> (\<forall>x \<in> set ts. \<not> IsClear x \<and> \<not> IsClose x)"
  using assms
proof (induction ks arbitrary: c)
  case Nil
  have "Set_keys P [] v c =
      c\<lparr>hashmap := hashmap c, alive := alive c, next_nid := next_nid c,
        writeBuffer := writeBuffer c @ []\<rparr>"
    by simp
  then show ?case by fastforce
next
  case (Cons k ks)
  from Cons.prems obtain h a t where 1: "Set P k v c =
     (True, c\<lparr>hashmap := h, alive := a, next_nid := next_nid c + 1,
              writeBuffer := writeBuffer c @ [t]\<rparr>)" and t: "\<not> IsClear t" "\<not> IsClose t"
    using Set_queue [of c k v P] by blast
  let ?c1 = "c\<lparr>hashmap := h, alive := a, next_nid := next_nid c + 1,
              writeBuffer := writeBuffer c @ [t]\<rparr>"
  have "\<forall>k. costFunc ?c1 k v \<le> MaxAvailableCost P (trace ?c1)"
    using Cons.prems by simp
  from Cons.IH [OF this] obtain h' a' n' ts where 2: "Set_keys P ks v ?c1 =
     ?c1\<lparr>hashmap := h', alive := a', next_nid := n',
          writeBuffer := writeBuffer ?c1 @ ts\<rparr>"
    and ts: "length ts = length ks" "\<forall>x \<in> set ts. \<not> IsClear x \<and> \<not> IsClose x"
    by blast
  have "Set_keys P (k # ks) v c =
     c\<lparr>hashmap := h', alive := a', next_nid := n', writeBuffer := writeBuffer c @ (t # ts)\<rparr>"
    using 1 2 by simp
  moreover have "length (t # ts) = length (k # ks)"
    "\<forall>x \<in> set (t # ts). \<not> IsClear x \<and> \<not> IsClose x"
    using t ts by simp_all
  ultimately show ?case by blast
qed

lemma Clear_idle:
  assumes "writeBuffer c = []" and "\<not> evictionMutex c" and "\<not> doneClear c"
    and "\<not> process_exited c"
  shows "Clear P c =
     Inr (c\<lparr>hashmap := Map.empty, readBuffers := map buffer_Clear (readBuffers c),
            buffer := [], evictionMutex := False, doneClear := False,
            stats := stats_Clear (stats c),
            trace := trace c @ [MutexLock, PolicyClear, ExpireClear, MutexUnlock,
                                DoneClearSend, DoneClearRecv]\<rparr>)"
proof -
  let ?c3 = "c\<lparr>hashmap := Map.empty, readBuffers := map buffer_Clear (readBuffers c),
               writeBuffer := [ClearTask]\<rparr>"
  let ?c0 = "?c3\<lparr>writeBuffer := []\<rparr>"
  let ?c4 = "?c0\<lparr>buffer := [], writeBuffer := [], evictionMutex := False, doneClear := True,
            trace := trace ?c0 @
              [MutexLock, PolicyClear, ExpireClear, MutexUnlock, DoneClearSend]\<rparr>"
  have task: "process_task P ClearTask ?c0 = Inr ?c4"
    using assms(2,3) process_control_Clear [of ?c0] by (simp add: process_task_def)
  have "process P ?c3 = Inr ?c4"
    using assms(4) task by (simp add: process_step [of ?c3 ClearTask "[]" P] process_idle)
  then show ?thesis
    using assms(1)
    by (simp add: Clear_def clear_def hashmap_Clear_def Insert_def Let_def log_event_def)
qed

text \<open>
  C2. After 63 calls of Set, a Clear and one more Set, the maintenance loop calls
  \<open>policy.Write\<close> once, with a batch of one task: Clear has emptied the pending batch
  of 63 tasks and has left the counter \<open>i\<close> at 63, so the next task brings \<open>i\<close> to 64
  and the batch is applied with this task alone.
\<close>

theorem batch_of_one_after_Clear:
  "map_sum id (\<lambda>c. map length (write_batches (trace c))) clear_then_set = Inr [1]"
proof -
  have fresh: "writeBuffer fresh_cache = []" "buffer fresh_cache = []" "i_var fresh_cache = 0"
    "\<not> process_exited fresh_cache" "\<not> evictionMutex fresh_cache" "\<not> doneClear fresh_cache"
    "trace fresh_cache = []"
    by (simp_all add: fresh_cache_def NewCache_def)
  have adm: "\<forall>k. costFunc fresh_cache k 1 \<le> MaxAvailableCost idle_policies (trace fresh_cache)"
    using fresh_cache_admits by blast
  obtain h a n ts where c1: "Set_keys idle_policies [0..<63] 1 fresh_cache =
      fresh_cache\<lparr>hashmap := h, alive := a, next_nid := n,
                  writeBuffer := writeBuffer fresh_cache @ ts\<rparr>"
    and ts: "length ts = length [0..<63]" "\<forall>x \<in> set ts. \<not> IsClear x \<and> \<not> IsClose x"
    using Set_keys_queue [OF adm, of "[0..<63]"] by blast
  let ?c1 = "fresh_cache\<lparr>hashmap := h, alive := a, next_nid := n, writeBuffer := ts\<rparr>"
  let ?c2 = "?c1\<lparr>writeBuffer := [], buffer := ts, i_var := 63\<rparr>"
  have len: "length ts = 63" using ts(1) by simp
  have p1: "process idle_policies ?c1 = Inr ?c2"
    using process_below_capacity [OF ts(2), of ?c1 idle_policies] fresh len
    by (simp add: bufferCapacity_def)
  let ?ev = "[MutexLock, PolicyClear, ExpireClear, MutexUnlock, DoneClearSend,
    DoneClearRecv] :: (nat, int) event list"
  let ?c3 = "?c2\<lparr>hashmap := Map.empty, readBuffers := map buffer_Clear (readBuffers ?c2),
            buffer := [], evictionMutex := False, doneClear := False,
            stats := stats_Clear (stats ?c2), trace := trace ?c2 @ ?ev\<rparr>"
  have p2: "Clear idle_policies ?c2 = Inr ?c3"
    using fresh by (intro Clear_idle) simp_all
  have adm3: "costFunc ?c3 100 1 \<le> MaxAvailableCost idle_policies (trace ?c3)"
    by (simp add: fresh_cache_def NewCache_def unit_cost_config_def idle_policies_def)
  obtain h4 a4 t where c4: "Set idle_policies 100 1 ?c3 =
     (True, ?c3\<lparr>hashmap := h4, alive := a4, next_nid := next_nid ?c3 + 1,
              writeBuffer := writeBuffer ?c3 @ [t]\<rparr>)" and t: "\<not> IsClear t" "\<not> IsClose t"
    using Set_queue [OF adm3] by blast
  let ?c4 = "?c3\<lparr>hashmap := h4, alive := a4, next_nid := next_nid ?c3 + 1,
              writeBuffer := [t]\<rparr>"
  let ?c0 = "?c4\<lparr>writeBuffer := []\<rparr>"
  have "bufferCapacity \<le> i_var ?c0 + 1" "\<not> evictionMutex ?c0"
    by (simp_all add: bufferCapacity_def)
  from process_task_at_capacity [OF t this, of idle_policies]
  obtain tr h5 a5 where task: "process_task idle_policies t ?c0 =
     Inr (?c0\<lparr>trace := trace ?c0 @ tr, hashmap := h5, alive := a5, buffer := [],
            i_var := i_var ?c0 + 1 - bufferCapacity, evictionMutex := False\<rparr>)"
    and tr: "write_batches tr = [buffer ?c0 @ [t]]"
    by blast
  let ?c5 = "?c0\<lparr>trace := trace ?c0 @ tr, hashmap := h5, alive := a5, buffer := [],
            i_var := i_var ?c0 + 1 - bufferCapacity, evictionMutex := False\<rparr>"
  have "process idle_policies ?c4 =
      (case process_task idle_policies t ?c0 of Inl f \<Rightarrow> Inl f
       | Inr c' \<Rightarrow> process idle_policies c')"
    by (rule process_step) (simp_all add: fresh)
  also have "\<dots> = process idle_policies ?c5"
    by (simp only: task sum.case)
  also have "\<dots> = Inr ?c5"
    by (rule process_idle) simp
  finally have p3: "process idle_policies ?c4 = Inr ?c5" .
  have run: "clear_then_set = Inr ?c5"
    using p1 p2 p3 fresh(1) c1 c4 by (simp add: clear_then_set_def)
  have "write_batches (trace ?c5) = [[t]]"
    using tr by (simp add: write_batches_append fresh(7))
  then show ?thesis
    by (simp add: run)
qed

section \<open>The expiration sweeper and the policy mutex\<close>

lemma cleanup_iteration_closed:
  "isClosed c \<Longrightarrow> \<not> evictionMutex c \<Longrightarrow>
   cleanup_iteration P c =
     Inr (c\<lparr>evictionMutex := True, cleanup_exited := True, trace := trace c @ [MutexLock]\<rparr>)"
  by (simp add: cleanup_iteration_def Lock_def log_event_def)

text \<open>An iteration that does not find the cache closed releases the mutex.\<close>

lemma cleanup_iteration_open:
  assumes "\<not> isClosed c" and "\<not> evictionMutex c"
  shows "\<exists>h a. cleanup_iteration P c =
     Inr (c\<lparr>evictionMutex := False, hashmap := h, alive := a,
            trace := trace c @
              [MutexLock, ExpireRemoveExpired,
               PolicyDelete (RemoveExpired P (trace c @ [MutexLock]) (now c)),
               MutexUnlock]\<rparr>)"
proof -
  let ?e = "RemoveExpired P (trace c @ [MutexLock]) (now c)"
  let ?c3 = "c\<lparr>evictionMutex := False,
               trace := trace c @ [MutexLock, ExpireRemoveExpired, PolicyDelete ?e,
                                   MutexUnlock]\<rparr>"
  obtain h a where "fold delete_and_die ?e ?c3 = ?c3\<lparr>hashmap := h, alive := a\<rparr>"
    using fold_delete_and_die_frame by blast
  then have "cleanup_iteration P c =
     Inr (c\<lparr>evictionMutex := False, hashmap := h, alive := a,
            trace := trace c @
              [MutexLock, ExpireRemoveExpired, PolicyDelete ?e, MutexUnlock]\<rparr>)"
    using assms
    by (simp add: cleanup_iteration_def Lock_def Unlock_def log_event_def Let_def)
  then show ?thesis by blast
qed

lemma Close_idle:
  assumes "writeBuffer c = []" and "\<not> evictionMutex c" and "\<not> doneClear c"
    and "\<not> process_exited c" and "\<not> closeOnce c"
  shows "Close P c =
     Inr (c\<lparr>hashmap := Map.empty, readBuffers := map buffer_Clear (readBuffers c),
            buffer := [], evictionMutex := False, isClosed := True, doneClear := False,
            process_exited := True, stats := stats_Clear (stats c), closeOnce := True,
            trace := trace c @ [MutexLock, PolicyClear, ExpireClear, SetIsClosed,
                                MutexUnlock, DoneClearSend, DoneClearRecv]
                     @ (if withExpiration c then [UnixtimeStop] else [])\<rparr>)"
proof -
  let ?c3 = "c\<lparr>hashmap := Map.empty, readBuffers := map buffer_Clear (readBuffers c),
               writeBuffer := [CloseTask]\<rparr>"
  let ?c0 = "?c3\<lparr>writeBuffer := []\<rparr>"
  let ?c4 = "?c0\<lparr>buffer := [], writeBuffer := [], evictionMutex := False, isClosed := True,
            doneClear := True, process_exited := True,
            trace := trace ?c0 @
              [MutexLock, PolicyClear, ExpireClear, SetIsClosed, MutexUnlock,
               DoneClearSend]\<rparr>"
  have task: "process_task P CloseTask ?c0 = Inr ?c4"
    using assms(2,3) process_control_Close [of ?c0] by (simp add: process_task_def)
  have "process P ?c3 =
      (case process_task P CloseTask ?c0 of Inl f \<Rightarrow> Inl f | Inr c' \<Rightarrow> process P c')"
    by (rule process_step) (simp_all add: assms(4))
  also have "\<dots> = process P ?c4"
    by (simp only: task sum.case)
  also have "\<dots> = Inr ?c4"
    by (rule process_exited_idle) simp
  finally have "process P ?c3 = Inr ?c4" .
  then have "clear P CloseTask c =
      Inr (?c4\<lparr>doneClear := False, trace := trace ?c4 @ [DoneClearRecv],
               stats := stats_Clear (stats c)\<rparr>)"
    using assms(1)
    by (simp add: clear_def hashmap_Clear_def Insert_def Let_def log_event_def)
  then show ?thesis
    using assms(1,5) by (simp add: Close_def Let_def log_event_def)
qed

text \<open>
  A cache with a fixed TTL of one second, right after \<open>NewCache\<close> and \<open>Close\<close>.
\<close>

definition closed_ttl_cache :: "(nat, int) cache" where
  "closed_ttl_cache =
     (NewCache 1 0 ttl_config)
       \<lparr>isClosed := True, process_exited := True, closeOnce := True,
        trace := [MutexLock, PolicyClear, ExpireClear, SetIsClosed, MutexUnlock,
                  DoneClearSend, DoneClearRecv, UnixtimeStop]\<rparr>"

text \<open>
  C1. On a cache with a fixed TTL that has been closed, the policy mutex is free after
  Close. The next iteration of the sweeper locks the mutex, finds the cache closed and
  returns: \<open>cleanup\<close> has exited and the policy mutex is still held, the only call of
  the iteration being the lock.
\<close>

theorem cleanup_exits_holding_mutex:
  "Close idle_policies (NewCache 1 0 ttl_config) = Inr closed_ttl_cache
   \<and> \<not> evictionMutex closed_ttl_cache
   \<and> cleanup_iteration idle_policies closed_ttl_cache =
       Inr (closed_ttl_cache\<lparr>evictionMutex := True, cleanup_exited := True,
                              trace := trace closed_ttl_cache @ [MutexLock]\<rparr>)
   \<and> evictionMutex (closed_ttl_cache\<lparr>evictionMutex := True, cleanup_exited := True,
                              trace := trace closed_ttl_cache @ [MutexLock]\<rparr>)"
proof -
  let ?c = "NewCache 1 0 ttl_config :: (nat, int) cache"
  have pre: "writeBuffer ?c = []" "\<not> evictionMutex ?c" "\<not> doneClear ?c"
    "\<not> process_exited ?c" "\<not> closeOnce ?c"
    by (simp_all add: NewCache_def)
  have "Close idle_policies ?c = Inr closed_ttl_cache"
    unfolding Close_idle [OF pre] closed_ttl_cache_def
    by (simp add: NewCache_def ttl_config_def unit_cost_config_def stats_Clear_def
        buffer_Clear_def lossy_New_def)
  moreover have "isClosed closed_ttl_cache" "\<not> evictionMutex closed_ttl_cache"
    by (simp_all add: closed_ttl_cache_def NewCache_def)
  ultimately show ?thesis
    by (simp add: cleanup_iteration_closed)
qed

theorem cleanup_exits_holding_mutex_witness:
  "\<exists>c. cleanup_iteration idle_policies closed_ttl_cache = Inr c \<and> cleanup_exited c
     \<and> evictionMutex c \<and> trace c = trace closed_ttl_cache @ [MutexLock]"
  using cleanup_exits_holding_mutex by simp

section \<open>The hash table holds live nodes only\<close>

text \<open>
  The invariant behind \<open>live_table\<close>: every entry of the hash table is a live node
  stored under its own key, with an identity the node manager has handed out, and no
  identity occurs under two keys.
\<close>

definition table_inv :: "('k, 'v) cache \<Rightarrow> bool" where
  "table_inv c \<longleftrightarrow>
     (\<forall>k n. hashmap c k = Some n \<longrightarrow> IsAlive c n \<and> key n = k \<and> nid n < next_nid c) \<and>
     (\<forall>k k' n n'. hashmap c k = Some n \<and> hashmap c k' = Some n' \<and> nid n = nid n' \<longrightarrow> k = k')"

lemma table_inv_live_table: "table_inv c \<Longrightarrow> live_table c"
  by (auto simp: table_inv_def live_table_def)

lemma table_inv_NewCache: "table_inv (NewCache roundUp clock cfg)"
  by (simp add: table_inv_def NewCache_def Let_def)

lemma table_inv_set_cache:
  assumes "table_inv c"
  shows "table_inv (snd (set_cache P k v e b c))"
proof (cases "MaxAvailableCost P (trace c) < costFunc c k v")
  case True
  then show ?thesis using assms by (simp add: set_cache_rejected)
next
  case False
  then have adm: "costFunc c k v \<le> MaxAvailableCost P (trace c)" by simp
  have absent: "table_inv (snd (set_cache P k v e True c))"
    unfolding set_cache_admitted_if_absent [OF adm]
    using assms
    by (auto simp: table_inv_def IsAlive_def Let_def split: option.splits; fastforce)
  have uncond: "table_inv (snd (set_cache P k v e False c))"
    unfolding set_cache_admitted_unconditional [OF adm]
    using assms
    by (auto simp: table_inv_def IsAlive_def Let_def split: option.splits; fastforce)
  from absent uncond show ?thesis
    by (cases b) simp_all
qed

lemma table_inv_Delete:
  assumes "table_inv c"
  shows "table_inv (Delete k c)"
proof (cases "hashmap c k")
  case None
  then show ?thesis using assms by (simp add: Delete_absent)
next
  case (Some n)
  show ?thesis
    unfolding Delete_present [OF Some]
    using assms Some
    by (auto simp: table_inv_def IsAlive_def; fastforce)
qed

text \<open>
  The workers take nodes out of the hash table by identity and then mark them dead. The
  nodes come from the policies; the invariant is kept when the policies return nodes of
  this cache, that is, nodes whose identity the hash table does not hold under another
  key.
\<close>

definition own_node :: "('k, 'v) cache \<Rightarrow> ('k, 'v) node \<Rightarrow> bool" where
  "own_node c n \<longleftrightarrow> (\<forall>k m. hashmap c k = Some m \<and> nid m = nid n \<longrightarrow> k = key n)"

lemma table_inv_delete_and_die:
  assumes "table_inv c" and "own_node c n"
  shows "table_inv (delete_and_die n c)"
  using assms
  by (auto simp: table_inv_def own_node_def delete_and_die_def hashmap_DeleteNode_def
      Die_def IsAlive_def split: option.splits if_splits; fastforce)

lemma own_node_delete_and_die:
  "own_node c m \<Longrightarrow> own_node (delete_and_die n c) m"
  by (auto simp: own_node_def delete_and_die_def hashmap_DeleteNode_def Die_def
      split: option.splits if_splits)

lemma table_inv_fold_delete_and_die:
  "table_inv c \<Longrightarrow> \<forall>n \<in> set ns. own_node c n \<Longrightarrow> table_inv (fold delete_and_die ns c)"
proof (induction ns arbitrary: c)
  case Nil
  then show ?case by simp
next
  case (Cons n ns)
  have "table_inv (delete_and_die n c)"
    using Cons.prems by (simp add: table_inv_delete_and_die)
  moreover have "\<forall>m \<in> set ns. own_node (delete_and_die n c) m"
    using Cons.prems(2) by (simp add: own_node_delete_and_die)
  ultimately show ?case
    using Cons.IH by simp
qed

lemma table_inv_frame:
  "hashmap c' = hashmap c \<Longrightarrow> alive c' = alive c \<Longrightarrow> next_nid c' = next_nid c \<Longrightarrow>
   table_inv c \<Longrightarrow> table_inv c'"
  by (simp add: table_inv_def IsAlive_def)

lemma table_inv_Get:
  "table_inv c \<Longrightarrow> Get fastrand k c = Inr (r, c') \<Longrightarrow> table_inv c'"
  by (auto simp: Get_def afterGet_def Insert_def Lock_def Unlock_def log_event_def Let_def
      split: option.splits if_splits sum.splits prod.splits
      elim!: table_inv_frame [rotated 3])

lemma process_batch_result:
  assumes "\<not> evictionMutex c"
  shows "\<exists>tr tr'. process_batch P c =
     Inr ((fold delete_and_die (Write P tr' (buffer c))
            (c\<lparr>evictionMutex := False, trace := trace c @ tr\<rparr>))\<lparr>buffer := []\<rparr>)"
proof -
  let ?c1 = "c\<lparr>evictionMutex := True, trace := trace c @ [MutexLock]\<rparr>"
  have lock: "Lock c = Inr ?c1"
    using assms(1) by (simp add: Lock_def log_event_def)
  obtain tr where c2: "fold expire_task (buffer c) ?c1 = ?c1\<lparr>trace := trace ?c1 @ tr\<rparr>"
    using fold_expire_task_trace by blast
  let ?tr' = "trace c @ [MutexLock] @ tr"
  let ?d = "Write P ?tr' (buffer c)"
  let ?tr = "[MutexLock] @ tr @ [PolicyWrite (buffer c)] @ map ExpireDelete ?d @ [MutexUnlock]"
  have "process_batch P c =
     Inr ((fold delete_and_die (Write P ?tr' (buffer c))
            (c\<lparr>evictionMutex := False, trace := trace c @ ?tr\<rparr>))\<lparr>buffer := []\<rparr>)"
    by (simp add: process_batch_def lock c2 Let_def fold_log_trace Unlock_def log_event_def)
  then show ?thesis by blast
qed

lemma table_inv_process_batch:
  assumes "table_inv c" and "\<not> evictionMutex c"
    and "\<forall>tr. \<forall>n \<in> set (Write P tr (buffer c)). own_node c n"
    and "process_batch P c = Inr c'"
  shows "table_inv c'"
proof -
  obtain tr tr' where r: "process_batch P c =
     Inr ((fold delete_and_die (Write P tr' (buffer c))
            (c\<lparr>evictionMutex := False, trace := trace c @ tr\<rparr>))\<lparr>buffer := []\<rparr>)"
    using process_batch_result [OF assms(2)] by blast
  let ?c5 = "c\<lparr>evictionMutex := False, trace := trace c @ tr\<rparr>"
  have "table_inv ?c5"
    using assms(1) by (rule table_inv_frame [rotated 3]) simp_all
  moreover have "\<forall>n \<in> set (Write P tr' (buffer c)). own_node ?c5 n"
    using assms(3) by (simp add: own_node_def)
  ultimately have "table_inv (fold delete_and_die (Write P tr' (buffer c)) ?c5)"
    by (rule table_inv_fold_delete_and_die)
  then have "table_inv ((fold delete_and_die (Write P tr' (buffer c)) ?c5)\<lparr>buffer := []\<rparr>)"
    by (rule table_inv_frame [rotated 3]) simp_all
  then show ?thesis
    using assms(4) r by simp
qed

lemma table_inv_cleanup_iteration:
  assumes "table_inv c"
    and "\<forall>tr. \<forall>n \<in> set (RemoveExpired P tr (now c)). own_node c n"
    and "cleanup_iteration P c = Inr c'"
  shows "table_inv c'"
proof (cases "evictionMutex c \<or> isClosed c")
  case True
  then show ?thesis
    using assms(1,3)
    by (auto simp: cleanup_iteration_def Lock_def log_event_def split: if_splits
        elim!: table_inv_frame [rotated 3])
next
  case False
  let ?e = "RemoveExpired P (trace c @ [MutexLock]) (now c)"
  let ?c3 = "c\<lparr>evictionMutex := False,
               trace := trace c @ [MutexLock, ExpireRemoveExpired, PolicyDelete ?e,
                                   MutexUnlock]\<rparr>"
  have r: "cleanup_iteration P c = Inr (fold delete_and_die ?e ?c3)"
    using False
    by (simp add: cleanup_iteration_def Lock_def Unlock_def log_event_def Let_def)
  have "table_inv ?c3"
    using assms(1) by (rule table_inv_frame [rotated 3]) simp_all
  moreover have "\<forall>n \<in> set ?e. own_node ?c3 n"
    using assms(2) by (simp add: own_node_def)
  ultimately have "table_inv (fold delete_and_die ?e ?c3)"
    by (rule table_inv_fold_delete_and_die)
  then show ?thesis
    using assms(3) r by simp
qed

section \<open>Batches while the counter follows the batch\<close>

text \<open>
  As long as \<open>i\<close> equals the length of the pending batch, a batch passed to
  \<open>policy.Write\<close> holds 64 tasks, and \<open>i\<close> still equals the length of the pending batch
  afterwards. The branch for Clear and Close is the one place that changes the batch and
  not \<open>i\<close>.
\<close>

lemma process_task_full_batch:
  assumes "\<not> IsClear t" and "\<not> IsClose t" and "\<not> evictionMutex c"
    and "i_var c = int (length (buffer c))" and "length (buffer c) < 64"
  shows "\<exists>c' tr. process_task P t c = Inr c' \<and> trace c' = trace c @ tr \<and>
     (\<forall>b \<in> set (write_batches tr). length b = 64) \<and>
     i_var c' = int (length (buffer c')) \<and> length (buffer c') < 64 \<and> \<not> evictionMutex c'"
proof (cases "i_var c + 1 < bufferCapacity")
  case True
  have "process_task P t c = Inr (c\<lparr>buffer := buffer c @ [t], i_var := i_var c + 1\<rparr>)"
    using assms(1,2) True by (rule process_task_below_capacity)
  moreover have "trace (c\<lparr>buffer := buffer c @ [t], i_var := i_var c + 1\<rparr>) = trace c @ []"
    by simp
  moreover have "\<forall>b \<in> set (write_batches ([] :: ('a, 'b) event list)). length b = 64"
    by simp
  ultimately show ?thesis
    using assms(3,4) True by (fastforce simp: bufferCapacity_def)
next
  case False
  then have full: "bufferCapacity \<le> i_var c + 1" by simp
  from process_task_at_capacity [OF assms(1,2) full assms(3), of P]
  obtain tr h a where r: "process_task P t c =
     Inr (c\<lparr>trace := trace c @ tr, hashmap := h, alive := a, buffer := [],
            i_var := i_var c + 1 - bufferCapacity, evictionMutex := False\<rparr>)"
    and tr: "write_batches tr = [buffer c @ [t]]"
    by blast
  have len: "length (buffer c) = 63"
    using full assms(4,5) by (simp add: bufferCapacity_def)
  let ?c' = "c\<lparr>trace := trace c @ tr, hashmap := h, alive := a, buffer := [],
            i_var := i_var c + 1 - bufferCapacity, evictionMutex := False\<rparr>"
  have "trace ?c' = trace c @ tr" "\<forall>b \<in> set (write_batches tr). length b = 64"
    "i_var ?c' = int (length (buffer ?c'))" "length (buffer ?c') < 64" "\<not> evictionMutex ?c'"
    using len assms(4) by (simp_all add: tr bufferCapacity_def)
  with r show ?thesis by blast
qed

end
